theory Spec2Isabelle
  imports Main "HOL-Library.Sublist"
begin

section \<open>The TypeScript language provider: which resources it handles\<close>

text \<open>
  \<^verbatim>\<open>LanguageProvider.handles\<close> (languageProvider.ts) tests the file-system path of a
  resource with the regular expressions \<^verbatim>\<open>/ts(x)?$/\<close> and \<^verbatim>\<open>/js(x)?$/\<close>. The fragment of
  JavaScript regular expressions they use is embedded as a datatype with a
  backtracking matcher: \<open>rmatch r s\<close> lists, in the engine's order of preference, the
  rests of \<open>s\<close> that a match of \<open>r\<close> at the start of \<open>s\<close> can leave. Neither expression
  carries the \<^verbatim>\<open>m\<close> flag, so \<^verbatim>\<open>$\<close> matches at the end of the input only.
\<close>

datatype regex =
    Lit char
  | Cat regex regex
  | Opt regex
  | EndOfInput

fun rmatch :: "regex \<Rightarrow> string \<Rightarrow> string list" where
  "rmatch (Lit c) s = (case s of [] \<Rightarrow> [] | d # t \<Rightarrow> if d = c then [t] else [])"
| "rmatch (Cat a b) s = concat (map (rmatch b) (rmatch a s))"
| "rmatch (Opt a) s = rmatch a s @ [s]"
| "rmatch EndOfInput s = (if s = [] then [s] else [])"

text \<open>\<^verbatim>\<open>RegExp.prototype.test\<close>: the expression matches at some position of the string.\<close>

fun regex_test :: "regex \<Rightarrow> string \<Rightarrow> bool" where
  "regex_test r [] = (rmatch r [] \<noteq> [])"
| "regex_test r (c # s) = (rmatch r (c # s) \<noteq> [] \<or> regex_test r s)"

text \<open>\<^verbatim>\<open>/ts(x)?$/\<close> and \<^verbatim>\<open>/js(x)?$/\<close>.\<close>

definition re_ts :: regex where
  "re_ts = Cat (Lit CHR ''t'') (Cat (Lit CHR ''s'') (Cat (Opt (Lit CHR ''x'')) EndOfInput))"

definition re_js :: regex where
  "re_js = Cat (Lit CHR ''j'') (Cat (Lit CHR ''s'') (Cat (Opt (Lit CHR ''x'')) EndOfInput))"

text \<open>
  \<^verbatim>\<open>basename\<close> of Node's \<^verbatim>\<open>path\<close> module, in its POSIX flavour and without the extension
  argument: trailing separators are skipped, and the result is the last run of
  characters that holds no separator (empty when the path holds none).
\<close>

definition basename :: "string \<Rightarrow> string" where
  "basename p =
     rev (takeWhile (\<lambda>c. c \<noteq> CHR ''/'') (dropWhile (\<lambda>c. c = CHR ''/'') (rev p)))"

text \<open>
  The members of \<^verbatim>\<open>LanguageDescription\<close> and \<^verbatim>\<open>Uri\<close> that \<^verbatim>\<open>handles\<close> reads. \<^verbatim>\<open>configFile\<close> is
  an optional property: \<open>None\<close> is \<^verbatim>\<open>undefined\<close>. The class \<^verbatim>\<open>BufferSyncSupport\<close> is not
  part of these sources; its method \<^verbatim>\<open>handles\<close> is a field of the provider.
\<close>

record language_description =
  lang_id :: string
  configFile :: "string option"

record uri =
  fsPath :: string

record language_provider =
  description :: language_description
  bufferSyncSupport_handles :: "uri \<Rightarrow> bool"

definition handles :: "language_provider \<Rightarrow> uri \<Rightarrow> bool" where
  "handles this resource =
     (let p = fsPath resource in
      if lang_id (description this) = ''typescript'' \<and> regex_test re_ts p then True
      else if lang_id (description this) = ''javascript'' \<and> regex_test re_js p then True
      else if bufferSyncSupport_handles this resource then True
      else (let base = basename (fsPath resource) in
            base \<noteq> [] \<and> Some base = configFile (description this)))"

section \<open>The snippet manager\<close>

text \<open>
  \<^verbatim>\<open>SnippetManager\<close> (src/unnamed/part_000) keeps one \<^verbatim>\<open>SnippetSession\<close> per buffer number in
  \<^verbatim>\<open>sessionMap\<close> and forwards editor events and commands to it. The classes it calls into
  (\<^verbatim>\<open>SnippetSession\<close>, \<^verbatim>\<open>SnippetParser\<close>, \<^verbatim>\<open>SnippetVariableResolver\<close>, \<^verbatim>\<open>workspace\<close>) are not part
  of these sources. They enter the model as parameters: a record of the methods the
  manager calls, over a type \<open>'s\<close> of whatever a session holds.
\<close>

type_synonym bufnr = nat

record position =
  line :: nat
  character :: nat

record range =
  range_start :: position
  range_end :: position

text \<open>\<^verbatim>\<open>TextDocumentContentChangeEvent\<close> and \<^verbatim>\<open>DidChangeTextDocumentParams\<close> of the protocol.\<close>

record content_change =
  change_range :: "range option"
  rangeLength :: "nat option"
  newText :: string

record did_change_params =
  textDocument_uri :: string
  contentChanges :: "content_change list"

record text_edit =
  edit_range :: range
  edit_newText :: string

text \<open>
  What one call of a session method does, as far as the manager can tell: the value it
  returns, whether the session emitted its cancel event during the call (the manager
  subscribes to it with \<^verbatim>\<open>onCancel\<close>), the edits it requested of the buffer, and the
  session's members after the call.
\<close>

record ('a, 's) outcome =
  returned :: 'a
  cancelled :: bool
  edits :: "text_edit list"
  after :: 's

record 's session_class =
  new_session :: "bufnr \<Rightarrow> 's"
  isActive :: "'s \<Rightarrow> bool"
  start :: "string \<Rightarrow> bool \<Rightarrow> position option \<Rightarrow> 's \<Rightarrow> (bool, 's) outcome"
  synchronizeUpdatedPlaceholders :: "content_change option \<Rightarrow> 's \<Rightarrow> (unit, 's) outcome"
  deactivate :: "'s \<Rightarrow> (unit, 's) outcome"
  checkPosition :: "'s \<Rightarrow> (unit, 's) outcome"
  nextPlaceholder :: "'s \<Rightarrow> (unit, 's) outcome"
  previousPlaceholder :: "'s \<Rightarrow> (unit, 's) outcome"
  selectCurrentPlaceholder :: "'s \<Rightarrow> (unit, 's) outcome"

text \<open>
  A \<^verbatim>\<open>SnippetSession\<close> object: \<open>oid\<close> is its identity (the number of sessions constructed
  before it), \<open>onCancel\<close> the listeners of its cancel event. The only listener the manager
  registers is the closure built in \<^verbatim>\<open>insertSnippet\<close>, which captures \<^verbatim>\<open>bufnr\<close>: a listener
  is represented by the buffer number it captured.
\<close>

record 's snippet_session =
  oid :: nat
  session_bufnr :: bufnr
  onCancel :: "bufnr list"
  members :: 's

text \<open>The calls the manager and its sessions make on their collaborators, in order.\<close>

datatype call =
    Session_start nat string bool "position option"
  | Session_synchronizeUpdatedPlaceholders nat "content_change option"
  | Session_deactivate nat
  | Session_checkPosition nat
  | Session_nextPlaceholder nat
  | Session_previousPlaceholder nat
  | Session_selectCurrentPlaceholder nat
  | Nvim_call string
  | Buffer_edit nat text_edit
  | Parser_parse string bool
  | Snippet_resolveVariables

text \<open>
  The manager's state. \<open>statusItem\<close> is \<open>None\<close> while the field is still \<^verbatim>\<open>undefined\<close> (it
  is assigned once \<^verbatim>\<open>workspace.ready\<close> resolves) and \<open>Some shown\<close> afterwards. A session is
  referenced from \<open>sessionMap\<close> only, under one key, so the map holds the objects
  themselves, and a method's update of a registered session is written back under its
  key. \<open>constructed\<close> counts the sessions constructed so far and \<open>calls\<close> logs the calls
  made; the code has neither, they only let theorems speak of object identity and of
  what was forwarded.
\<close>

record 's snippet_manager =
  sessionMap :: "bufnr \<rightharpoonup> 's snippet_session"
  statusItem :: "bool option"
  constructed :: nat
  calls :: "call list"

text \<open>
  What the manager reads from \<^verbatim>\<open>workspace\<close> during one event: \<^verbatim>\<open>workspace.bufnr\<close>, the
  answer of \<^verbatim>\<open>nvim.call('bufnr', '%')\<close>, and \<^verbatim>\<open>workspace.getDocument(uri)\<close> (the buffer number
  of the document, \<open>None\<close> when there is no document).
\<close>

record workspace =
  workspace_bufnr :: bufnr
  nvim_bufnr :: bufnr
  getDocument :: "string \<Rightarrow> bufnr option"

datatype error = TypeError

definition getSession :: "'s snippet_manager \<Rightarrow> bufnr \<Rightarrow> 's snippet_session option" where
  "getSession this bufnr = sessionMap this bufnr"

text \<open>\<^verbatim>\<open>this.statusItem.hide()\<close> where the code guards it or an emitter contains its failure.\<close>

definition hide_if_defined :: "'s snippet_manager \<Rightarrow> 's snippet_manager" where
  "hide_if_defined this =
     (case statusItem this of None \<Rightarrow> this | Some _ \<Rightarrow> this\<lparr>statusItem := Some False\<rparr>)"

text \<open>
  The listener of \<^verbatim>\<open>insertSnippet\<close> (lines 66 to 71): delete the captured buffer's entry,
  and hide the status item when that buffer is the current one. With \<^verbatim>\<open>statusItem\<close> still
  undefined the call of \<^verbatim>\<open>hide\<close> throws inside the listener, after the deletion; the
  emitter that invoked the listener is taken to contain that exception.
\<close>

definition cancel_listener ::
  "workspace \<Rightarrow> bufnr \<Rightarrow> 's snippet_manager \<Rightarrow> 's snippet_manager" where
  "cancel_listener ws bufnr this =
     (let this1 = this\<lparr>sessionMap := (sessionMap this)(bufnr := None)\<rparr> in
      if workspace_bufnr ws = bufnr then hide_if_defined this1 else this1)"

definition fire_cancel ::
  "workspace \<Rightarrow> 's snippet_session \<Rightarrow> 's snippet_manager \<Rightarrow> 's snippet_manager" where
  "fire_cancel ws session this = fold (cancel_listener ws) (onCancel session) this"

text \<open>
  The effects of one method call on the manager's state: the call and the edits it
  requested are logged, and the listeners run when the cancel event was emitted.
\<close>

definition effects ::
  "workspace \<Rightarrow> 's snippet_session \<Rightarrow> call \<Rightarrow> ('a, 's) outcome \<Rightarrow>
     's snippet_manager \<Rightarrow> 's snippet_manager" where
  "effects ws session c out this =
     (let this1 = this\<lparr>calls := calls this @ c # map (Buffer_edit (session_bufnr session)) (edits out)\<rparr>
      in if cancelled out then fire_cancel ws session this1 else this1)"

text \<open>A method call on the session registered under \<open>key\<close>.\<close>

definition call_registered ::
  "workspace \<Rightarrow> bufnr \<Rightarrow> 's snippet_session \<Rightarrow> call \<Rightarrow> ('a, 's) outcome \<Rightarrow>
     's snippet_manager \<Rightarrow> 's snippet_manager" where
  "call_registered ws key session c out this =
     effects ws session c out
       (this\<lparr>sessionMap := (sessionMap this)(key \<mapsto> session\<lparr>members := after out\<rparr>)\<rparr>)"

text \<open>\<^verbatim>\<open>e.contentChanges[0]\<close>: \<^verbatim>\<open>undefined\<close> on an empty array.\<close>

definition first_change :: "content_change list \<Rightarrow> content_change option" where
  "first_change cs = (case cs of [] \<Rightarrow> None | c # _ \<Rightarrow> Some c)"

text \<open>The handler of \<^verbatim>\<open>workspace.onDidChangeTextDocument\<close> (lines 23 to 31).\<close>

definition onDidChangeTextDocument ::
  "'s session_class \<Rightarrow> workspace \<Rightarrow> did_change_params \<Rightarrow>
     's snippet_manager \<Rightarrow> 's snippet_manager" where
  "onDidChangeTextDocument cls ws e this =
     (case getDocument ws (textDocument_uri e) of
        None \<Rightarrow> this
      | Some doc_bufnr \<Rightarrow>
          (case getSession this doc_bufnr of
             None \<Rightarrow> this
           | Some session \<Rightarrow>
               if isActive cls (members session) then
                 call_registered ws doc_bufnr session
                   (Session_synchronizeUpdatedPlaceholders (oid session)
                      (first_change (contentChanges e)))
                   (synchronizeUpdatedPlaceholders cls (first_change (contentChanges e))
                      (members session))
                   this
               else this))"

text \<open>The handler of \<^verbatim>\<open>workspace.onDidCloseTextDocument\<close> (lines 33 to 38).\<close>

definition onDidCloseTextDocument ::
  "workspace \<Rightarrow> string \<Rightarrow> 's snippet_manager \<Rightarrow> 's snippet_manager" where
  "onDidCloseTextDocument ws textDocument this =
     (case getDocument ws textDocument of
        None \<Rightarrow> this
      | Some doc_bufnr \<Rightarrow>
          (case getSession this doc_bufnr of
             None \<Rightarrow> this
           | Some session \<Rightarrow>
               this\<lparr>sessionMap := (sessionMap this)(session_bufnr session := None)\<rparr>))"

text \<open>The getter \<^verbatim>\<open>session\<close> (lines 109 to 112): the current buffer's session, if active.\<close>

definition active_session ::
  "'s session_class \<Rightarrow> workspace \<Rightarrow> 's snippet_manager \<Rightarrow> 's snippet_session option" where
  "active_session cls ws this =
     (case getSession this (workspace_bufnr ws) of
        None \<Rightarrow> None
      | Some session \<Rightarrow> if isActive cls (members session) then Some session else None)"

text \<open>The handler of \<^verbatim>\<open>BufEnter\<close> (lines 40 to 48).\<close>

definition onBufEnter ::
  "'s session_class \<Rightarrow> bufnr \<Rightarrow> 's snippet_manager \<Rightarrow> 's snippet_manager" where
  "onBufEnter cls bufnr this =
     (case statusItem this of
        None \<Rightarrow> this
      | Some _ \<Rightarrow>
          (case getSession this bufnr of
             None \<Rightarrow> this\<lparr>statusItem := Some False\<rparr>
           | Some session \<Rightarrow> this\<lparr>statusItem := Some (isActive cls (members session))\<rparr>))"

text \<open>The handler of \<^verbatim>\<open>InsertEnter\<close> (lines 50 to 54).\<close>

definition onInsertEnter ::
  "'s session_class \<Rightarrow> workspace \<Rightarrow> 's snippet_manager \<Rightarrow> 's snippet_manager" where
  "onInsertEnter cls ws this =
     (case active_session cls ws this of
        None \<Rightarrow> this
      | Some session \<Rightarrow>
          call_registered ws (workspace_bufnr ws) session (Session_checkPosition (oid session))
            (checkPosition cls (members session)) this)"

text \<open>
  \<^verbatim>\<open>insertSnippet\<close> (lines 60 to 81). The result pairs what the promise settles with (the
  boolean, or the error it rejects with) and the manager's state then. \<^verbatim>\<open>select\<close> is the
  argument after its default has been applied. A session found in the map is reused;
  only when there is none is a session constructed and the listener registered
  (\<^verbatim>\<open>disposable\<close> is defined in that case only), and only that new listener is disposed of
  when \<^verbatim>\<open>start\<close> answers false; the session it belonged to is then referenced nowhere.
  \<^verbatim>\<open>this.statusItem.show()\<close> is not guarded: it throws a \<^verbatim>\<open>TypeError\<close> while the status item
  is undefined, after the session has been registered.
\<close>

definition insertSnippet ::
  "'s session_class \<Rightarrow> workspace \<Rightarrow> string \<Rightarrow> bool \<Rightarrow> position option \<Rightarrow>
     's snippet_manager \<Rightarrow> (error + bool) \<times> 's snippet_manager" where
  "insertSnippet cls ws snippet select position this =
     (let bufnr = nvim_bufnr ws;
          found = getSession this bufnr;
          session = (case found of
                       None \<Rightarrow> \<lparr>oid = constructed this, session_bufnr = bufnr,
                                 onCancel = [bufnr], members = new_session cls bufnr\<rparr>
                     | Some s \<Rightarrow> s);
          this0 = (case found of
                     None \<Rightarrow> this\<lparr>constructed := Suc (constructed this)\<rparr>
                   | Some _ \<Rightarrow> this);
          out = start cls snippet select position (members session);
          c = Session_start (oid session) snippet select position;
          this1 = (case found of
                     None \<Rightarrow> effects ws session c out this0
                   | Some _ \<Rightarrow> call_registered ws bufnr session c out this0)
      in if returned out then
           (let this2 = this1\<lparr>sessionMap :=
                                (sessionMap this1)(bufnr \<mapsto> session\<lparr>members := after out\<rparr>)\<rparr>
            in case statusItem this2 of
                 None \<Rightarrow> (Inl TypeError, this2)
               | Some _ \<Rightarrow> (Inr True, this2\<lparr>statusItem := Some True\<rparr>))
         else (Inr False, this1))"

text \<open>
  \<^verbatim>\<open>nvim.call('coc#snippet#disable', [], true)\<close> followed by \<^verbatim>\<open>this.statusItem.hide()\<close>, as
  \<^verbatim>\<open>nextPlaceholder\<close> and \<^verbatim>\<open>previousPlaceholder\<close> end when there is no active session.
\<close>

definition disable_and_hide :: "'s snippet_manager \<Rightarrow> (error + unit) \<times> 's snippet_manager" where
  "disable_and_hide this =
     (let this1 = this\<lparr>calls := calls this @ [Nvim_call ''coc#snippet#disable'']\<rparr> in
      case statusItem this1 of
        None \<Rightarrow> (Inl TypeError, this1)
      | Some _ \<Rightarrow> (Inr (), this1\<lparr>statusItem := Some False\<rparr>))"

definition manager_selectCurrentPlaceholder ::
  "'s session_class \<Rightarrow> workspace \<Rightarrow> 's snippet_manager \<Rightarrow> 's snippet_manager" where
  "manager_selectCurrentPlaceholder cls ws this =
     (case active_session cls ws this of
        None \<Rightarrow> this
      | Some session \<Rightarrow>
          call_registered ws (workspace_bufnr ws) session
            (Session_selectCurrentPlaceholder (oid session))
            (selectCurrentPlaceholder cls (members session)) this)"

definition manager_nextPlaceholder ::
  "'s session_class \<Rightarrow> workspace \<Rightarrow> 's snippet_manager \<Rightarrow>
     (error + unit) \<times> 's snippet_manager" where
  "manager_nextPlaceholder cls ws this =
     (case active_session cls ws this of
        None \<Rightarrow> disable_and_hide this
      | Some session \<Rightarrow>
          (Inr (), call_registered ws (workspace_bufnr ws) session
                     (Session_nextPlaceholder (oid session))
                     (nextPlaceholder cls (members session)) this))"

definition manager_previousPlaceholder ::
  "'s session_class \<Rightarrow> workspace \<Rightarrow> 's snippet_manager \<Rightarrow>
     (error + unit) \<times> 's snippet_manager" where
  "manager_previousPlaceholder cls ws this =
     (case active_session cls ws this of
        None \<Rightarrow> disable_and_hide this
      | Some session \<Rightarrow>
          (Inr (), call_registered ws (workspace_bufnr ws) session
                     (Session_previousPlaceholder (oid session))
                     (previousPlaceholder cls (members session)) this))"

text \<open>\<^verbatim>\<open>cancel\<close> (lines 102 to 107).\<close>

definition cancel :: "'s session_class \<Rightarrow> workspace \<Rightarrow> 's snippet_manager \<Rightarrow> 's snippet_manager" where
  "cancel cls ws this =
     (case getSession this (workspace_bufnr ws) of
        Some session \<Rightarrow>
          call_registered ws (workspace_bufnr ws) session (Session_deactivate (oid session))
            (deactivate cls (members session)) this
      | None \<Rightarrow>
          hide_if_defined (this\<lparr>calls := calls this @ [Nvim_call ''coc#snippet#disable'']\<rparr>))"

text \<open>
  \<^verbatim>\<open>resolveSnippet\<close> (lines 118 to 124) calls into the modules ./parser and
  ./variableResolve, which are not part of these sources: \<^verbatim>\<open>SnippetParser.parse\<close>, the
  constructor of \<^verbatim>\<open>SnippetVariableResolver\<close> and \<^verbatim>\<open>TextmateSnippet.resolveVariables\<close> are
  parameters, over a type \<open>'snip\<close> of snippets and a type \<open>'res\<close> of resolvers.
  \<^verbatim>\<open>resolveVariables\<close> updates the snippet in place; the model returns the updated snippet.
\<close>

record ('snip, 'res) snippets_module =
  parser_parse :: "string \<Rightarrow> bool \<Rightarrow> 'snip"
  new_resolver :: 'res
  snippet_resolveVariables :: "'res \<Rightarrow> 'snip \<Rightarrow> 'snip"

definition resolveSnippet ::
  "('snip, 'res) snippets_module \<Rightarrow> string \<Rightarrow> 's snippet_manager \<Rightarrow>
     'snip \<times> 's snippet_manager" where
  "resolveSnippet md body this =
     (let snippet = parser_parse md body True;
          resolver = new_resolver md;
          snippet' = snippet_resolveVariables md resolver snippet
      in (snippet',
          this\<lparr>calls := calls this @ [Parser_parse body True, Snippet_resolveVariables]\<rparr>))"

text \<open>The manager as constructed: no session, no status item yet.\<close>

definition new_manager :: "'s snippet_manager" where
  "new_manager = \<lparr>sessionMap = Map.empty, statusItem = None, constructed = 0, calls = []\<rparr>"

section \<open>What the theorems observe\<close>

text \<open>
  The registry invariant: every registered session is registered under its own buffer
  number, carries the manager's listener for that buffer and no other, and was
  constructed by this manager; no session object is registered under two buffer numbers.
\<close>

definition registry_ok :: "'s snippet_manager \<Rightarrow> bool" where
  "registry_ok this \<longleftrightarrow>
     (\<forall>b s. sessionMap this b = Some s \<longrightarrow>
        session_bufnr s = b \<and> onCancel s = [b] \<and> oid s < constructed this) \<and>
     (\<forall>b b' s s'. sessionMap this b = Some s \<longrightarrow> sessionMap this b' = Some s' \<longrightarrow>
        oid s = oid s' \<longrightarrow> b = b')"

text \<open>
  The states the manager goes through: the one it is constructed in, and from any of
  them the one after \<^verbatim>\<open>workspace.ready\<close> has resolved and the status item has been created,
  after a handler registered by the constructor has run, or after a public method has
  been called, whatever the editor's state \<open>ws\<close> and the arguments are.
\<close>

inductive reachable ::
  "'s session_class \<Rightarrow> ('snip, 'res) snippets_module \<Rightarrow> 's snippet_manager \<Rightarrow> bool"
  for cls :: "'s session_class" and md :: "('snip, 'res) snippets_module" where
  constructed: "reachable cls md new_manager"
| ready: "reachable cls md this \<Longrightarrow> statusItem this = None \<Longrightarrow>
     reachable cls md (this\<lparr>statusItem := Some False\<rparr>)"
| didChange: "reachable cls md this \<Longrightarrow>
     reachable cls md (onDidChangeTextDocument cls ws e this)"
| didClose: "reachable cls md this \<Longrightarrow>
     reachable cls md (onDidCloseTextDocument ws textDocument this)"
| bufEnter: "reachable cls md this \<Longrightarrow> reachable cls md (onBufEnter cls bufnr this)"
| insertEnter: "reachable cls md this \<Longrightarrow> reachable cls md (onInsertEnter cls ws this)"
| insert: "reachable cls md this \<Longrightarrow>
     reachable cls md (snd (insertSnippet cls ws snippet select position this))"
| select: "reachable cls md this \<Longrightarrow>
     reachable cls md (manager_selectCurrentPlaceholder cls ws this)"
| next_ph: "reachable cls md this \<Longrightarrow>
     reachable cls md (snd (manager_nextPlaceholder cls ws this))"
| previous_ph: "reachable cls md this \<Longrightarrow>
     reachable cls md (snd (manager_previousPlaceholder cls ws this))"
| cancel: "reachable cls md this \<Longrightarrow> reachable cls md (cancel cls ws this)"
| resolve: "reachable cls md this \<Longrightarrow> reachable cls md (snd (resolveSnippet md body this))"

text \<open>
  The arguments of the calls of \<^verbatim>\<open>synchronizeUpdatedPlaceholders\<close> in a log, and the edits
  requested of buffers in a log, each in order.
\<close>

fun sync_args :: "call list \<Rightarrow> content_change option list" where
  "sync_args [] = []"
| "sync_args (Session_synchronizeUpdatedPlaceholders i c # cs) = c # sync_args cs"
| "sync_args (_ # cs) = sync_args cs"

fun buffer_edits :: "call list \<Rightarrow> (nat \<times> text_edit) list" where
  "buffer_edits [] = []"
| "buffer_edits (Buffer_edit b e # cs) = (b, e) # buffer_edits cs"
| "buffer_edits (_ # cs) = buffer_edits cs"

text \<open>
  A smallest session class, for concrete inputs: the only member of a session is its
  active flag. \<^verbatim>\<open>start\<close> activates the session exactly when the snippet text holds a \<^verbatim>\<open>$\<close>
  and requests no edit; \<^verbatim>\<open>deactivate\<close> clears the flag and emits the cancel event; the
  other methods change nothing.
\<close>

definition flag_class :: "bool session_class" where
  "flag_class =
     \<lparr>new_session = (\<lambda>bufnr. False),
      isActive = (\<lambda>s. s),
      start = (\<lambda>snippet select position s.
                 \<lparr>returned = (CHR ''$'' \<in> set snippet), cancelled = False, edits = [],
                  after = (CHR ''$'' \<in> set snippet)\<rparr>),
      synchronizeUpdatedPlaceholders =
        (\<lambda>change s. \<lparr>returned = (), cancelled = False, edits = [], after = s\<rparr>),
      deactivate = (\<lambda>s. \<lparr>returned = (), cancelled = True, edits = [], after = False\<rparr>),
      checkPosition = (\<lambda>s. \<lparr>returned = (), cancelled = False, edits = [], after = s\<rparr>),
      nextPlaceholder = (\<lambda>s. \<lparr>returned = (), cancelled = False, edits = [], after = s\<rparr>),
      previousPlaceholder = (\<lambda>s. \<lparr>returned = (), cancelled = False, edits = [], after = s\<rparr>),
      selectCurrentPlaceholder =
        (\<lambda>s. \<lparr>returned = (), cancelled = False, edits = [], after = s\<rparr>)\<rparr>"

section \<open>The snippet parser, modelled from the specification\<close>

text \<open>
  The classes \<^verbatim>\<open>SnippetParser\<close> and \<^verbatim>\<open>TextmateSnippet\<close> (./parser) and \<^verbatim>\<open>SnippetSession\<close>
  (./session) are not part of these sources: the manager only calls them. What follows
  is written from the specification (sections 3 and 4), one definition per sentence or
  grammar rule.
\<close>

text \<open>
  Modelled from the spec: the Transform of the data model (section 3), of the missing
  parser. The text of the regular expression, of the format and of the flags is kept
  as written in the template: the specification gives no syntax for format fragments.
\<close>

record transform =
  regexp :: string
  format :: string
  flags :: string

text \<open>
  Modelled from the spec: the Marker of the data model (section 3), of the missing parser:
  literal text; a placeholder with its index, children, optional choices and optional
  transform; a variable with its name, children and optional transform.
\<close>

datatype marker =
    Text string
  | Placeholder nat "marker list" "string list option" "transform option"
  | Variable string "marker list" "transform option"

text \<open>Modelled from the spec: the escape character of the grammar (section 4.1).\<close>

definition backslash :: char where
  "backslash = CHR 0x5C"

text \<open>Modelled from the spec: the \<^verbatim>\<open><digits>\<close> of the grammar (section 4.1).\<close>

definition is_digit :: "char \<Rightarrow> bool" where
  "is_digit c \<longleftrightarrow> c \<in> set ''0123456789''"

text \<open>
  Modelled from the spec: the \<^verbatim>\<open><name>\<close> of the grammar (section 4.1), read as an
  identifier: a letter or underscore, then letters, digits and underscores.
\<close>

definition is_name_start :: "char \<Rightarrow> bool" where
  "is_name_start c \<longleftrightarrow>
     c \<in> set ''_abcdefghijklmnopqrstuvwxyzABCDEFGHIJKLMNOPQRSTUVWXYZ''"

text \<open>Modelled from the spec: the characters a \<^verbatim>\<open><name>\<close> goes on with (section 4.1).\<close>

definition is_name_char :: "char \<Rightarrow> bool" where
  "is_name_char c \<longleftrightarrow> is_name_start c \<or> is_digit c"

text \<open>Modelled from the spec: "index = digits" (section 4.1), the decimal value.\<close>

definition nat_of_digits :: "string \<Rightarrow> nat" where
  "nat_of_digits ds = fold (\<lambda>c n. 10 * n + (of_char c - 48)) ds 0"

text \<open>
  Modelled from the spec: what follows \<^verbatim>\<open>$\<close> or \<^verbatim>\<open>${\<close> in every form of the grammar, the
  digits of a placeholder or the name of a variable, with the rest of the input.
\<close>

datatype head = Index nat | Name string

text \<open>
  Modelled from the spec: the reading of \<^verbatim>\<open><digits>\<close> or \<^verbatim>\<open><name>\<close> at the start of a string
  (section 4.1): the longest run of digits, or else the longest name.
\<close>

definition scan_head :: "string \<Rightarrow> (head \<times> string) option" where
  "scan_head s =
     (if takeWhile is_digit s \<noteq> [] then
        Some (Index (nat_of_digits (takeWhile is_digit s)), dropWhile is_digit s)
      else (case s of
              [] \<Rightarrow> None
            | c # r \<Rightarrow> if is_name_start c
                       then Some (Name (c # takeWhile is_name_char r), dropWhile is_name_char r)
                       else None))"

text \<open>
  Modelled from the spec: a clause of a choice or transform form up to its delimiter
  \<open>d\<close>, where a backslash before a character of \<open>esc\<close> stands for that character
  (section 4.1, escape sequences). \<open>None\<close> when the delimiter never comes.
\<close>

fun scan_until :: "char list \<Rightarrow> char \<Rightarrow> string \<Rightarrow> (string \<times> string) option" where
  "scan_until esc d [] = None"
| "scan_until esc d [c] = (if c = d then Some ([], []) else None)"
| "scan_until esc d (c # e # s) =
     (if c = d then Some ([], e # s)
      else if c = backslash \<and> e \<in> set esc then
        (case scan_until esc d s of None \<Rightarrow> None | Some (t, r) \<Rightarrow> Some (e # t, r))
      else (case scan_until esc d (e # s) of None \<Rightarrow> None | Some (t, r) \<Rightarrow> Some (c # t, r)))"

text \<open>
  Modelled from the spec: the choices of \<^verbatim>\<open>${<digits>|<choice>,<choice>,...|}\<close> after the
  first bar, up to and including the second; \<open>cur\<close> is the current choice, reversed.
\<close>

fun scan_choices :: "string \<Rightarrow> string \<Rightarrow> (string list \<times> string) option" where
  "scan_choices cur [] = None"
| "scan_choices cur [c] = (if c = CHR ''|'' then Some ([rev cur], []) else None)"
| "scan_choices cur (c # e # s) =
     (if c = CHR ''|'' then Some ([rev cur], e # s)
      else if c = CHR '','' then
        (case scan_choices [] (e # s) of None \<Rightarrow> None | Some (cs, r) \<Rightarrow> Some (rev cur # cs, r))
      else if c = backslash \<and> e \<in> {CHR '','', CHR ''|'', backslash} then scan_choices (e # cur) s
      else scan_choices (c # cur) (e # s))"

text \<open>
  Modelled from the spec: the Placeholder or Variable a form stands for ("symmetric to
  Placeholder forms but keyed by name instead of index").
\<close>

fun make_marker :: "head \<Rightarrow> marker list \<Rightarrow> transform option \<Rightarrow> marker" where
  "make_marker (Index n) cs t = Placeholder n cs None t"
| "make_marker (Name x) cs t = Variable x cs t"

text \<open>
  Modelled from the spec: the clause \<^verbatim>\<open><regex>/<format>/<flags>}\<close> of a transform form, after
  its first slash.
\<close>

definition scan_transform :: "string \<Rightarrow> (transform \<times> string) option" where
  "scan_transform s =
     (case scan_until [CHR ''/'', backslash] (CHR ''/'') s of
        None \<Rightarrow> None
      | Some (re, s1) \<Rightarrow>
          (case scan_until [CHR ''/'', backslash] (CHR ''/'') s1 of
             None \<Rightarrow> None
           | Some (fmt, s2) \<Rightarrow>
               (case scan_until [] (CHR ''}'') s2 of
                  None \<Rightarrow> None
                | Some (fl, s3) \<Rightarrow> Some (\<lparr>regexp = re, format = fmt, flags = fl\<rparr>, s3))))"

text \<open>
  Modelled from the spec: the braced forms without children, read after the \<^verbatim>\<open>$\<close>:
  \<^verbatim>\<open>${<digits>}\<close>, \<^verbatim>\<open>${<digits>|...|}\<close>, \<^verbatim>\<open>${<digits>/.../.../...}\<close>, \<^verbatim>\<open>${<name>}\<close> and
  \<^verbatim>\<open>${<name>/.../.../...}\<close>.
\<close>

definition braced_flat :: "string \<Rightarrow> (marker \<times> string) option" where
  "braced_flat s =
     (case s of
        [] \<Rightarrow> None
      | c # s0 \<Rightarrow>
          if c \<noteq> CHR ''{'' then None
          else (case scan_head s0 of
                  None \<Rightarrow> None
                | Some (h, s1) \<Rightarrow>
                    (case s1 of
                       [] \<Rightarrow> None
                     | d # s2 \<Rightarrow>
                         if d = CHR ''}'' then Some (make_marker h [] None, s2)
                         else if d = CHR ''/'' then
                           (case scan_transform s2 of
                              None \<Rightarrow> None
                            | Some (t, s3) \<Rightarrow> Some (make_marker h [] (Some t), s3))
                         else if d = CHR ''|'' then
                           (case h of
                              Name x \<Rightarrow> None
                            | Index n \<Rightarrow>
                                (case scan_choices [] s2 of
                                   None \<Rightarrow> None
                                 | Some (cs, s3) \<Rightarrow>
                                     (case s3 of
                                        [] \<Rightarrow> None
                                      | e # s4 \<Rightarrow>
                                          if e = CHR ''}''
                                          then Some (Placeholder n [] (Some cs) None, s4)
                                          else None)))
                         else None)))"

text \<open>
  Modelled from the spec: the opening \<^verbatim>\<open>{<digits>:\<close> or \<^verbatim>\<open>{<name>:\<close> of a form with children,
  read after the \<^verbatim>\<open>$\<close>.
\<close>

definition children_head :: "string \<Rightarrow> (head \<times> string) option" where
  "children_head s =
     (case s of
        [] \<Rightarrow> None
      | c # s0 \<Rightarrow>
          if c \<noteq> CHR ''{'' then None
          else (case scan_head s0 of
                  None \<Rightarrow> None
                | Some (h, s1) \<Rightarrow>
                    (case s1 of
                       [] \<Rightarrow> None
                     | d # s2 \<Rightarrow> if d = CHR '':'' then Some (h, s2) else None)))"

text \<open>Modelled from the spec: the bare forms \<^verbatim>\<open>$<digits>\<close> and \<^verbatim>\<open>$<name>\<close>, read after the \<^verbatim>\<open>$\<close>.\<close>

definition bare :: "string \<Rightarrow> (marker \<times> string) option" where
  "bare s =
     (case scan_head s of None \<Rightarrow> None | Some (h, s1) \<Rightarrow> Some (make_marker h [] None, s1))"

text \<open>
  Modelled from the spec: literal characters become Text; consecutive literal characters
  form one Text marker.
\<close>

fun add_text :: "string \<Rightarrow> marker list \<Rightarrow> marker list" where
  "add_text s (Text t # ms) = Text (s @ t) # ms"
| "add_text s ms = Text s # ms"

text \<open>
  Modelled from the spec: what parsing a sequence gives: its markers, the input left,
  and whether the sequence ended at the closing brace of the form it is nested in.
\<close>

type_synonym parsed = "marker list \<times> string \<times> bool"

text \<open>
  Modelled from the spec: a marker or literal text followed by the rest of its sequence
  (section 4.1): \<open>f\<close> puts it in front of the markers the rest parses to.
\<close>

definition followed_by :: "(marker list \<Rightarrow> marker list) \<Rightarrow> parsed option \<Rightarrow> parsed option" where
  "followed_by f rest =
     (case rest of None \<Rightarrow> None | Some (ms, s, closed) \<Rightarrow> Some (f ms, s, closed))"

text \<open>
  Modelled from the spec: the recursive descent of section 4.1 over a sequence of
  markers, top-level (\<open>nested\<close> false) or the children of a braced form (\<open>nested\<close> true,
  ended by the closing brace). The descent is not structural (after the children of a
  form it goes on with the input they left), so it carries fuel: one unit per step, and
  \<open>None\<close> stands for running out of it. The rules, in the order they are tried:
  an escape \<^verbatim>\<open>\$\<close>, \<^verbatim>\<open>\}\<close> or \<^verbatim>\<open>\\\<close> is the literal character, and any other backslash is
  itself literal; at a \<^verbatim>\<open>$\<close> the braced forms come before the bare ones; a form with
  children whose closing brace never comes, and a \<^verbatim>\<open>${\<close> that no brace follows at all,
  turn the rest of the input from there on into Text; any other \<^verbatim>\<open>$\<close> is a literal
  character.
\<close>

fun parse_markers :: "nat \<Rightarrow> bool \<Rightarrow> string \<Rightarrow> parsed option" where
  "parse_markers 0 nested s = None"
| "parse_markers (Suc n) nested [] = Some ([], [], False)"
| "parse_markers (Suc n) nested (c # s) =
     (if c = CHR ''}'' \<and> nested then Some ([], s, True)
      else if c = backslash then
        (case s of
           [] \<Rightarrow> followed_by (add_text [c]) (parse_markers n nested s)
         | e # s' \<Rightarrow>
             if e \<in> {CHR ''$'', CHR ''}'', backslash}
             then followed_by (add_text [e]) (parse_markers n nested s')
             else followed_by (add_text [c]) (parse_markers n nested s))
      else if c = CHR ''$'' then
        (case braced_flat s of
           Some (m, s') \<Rightarrow> followed_by ((#) m) (parse_markers n nested s')
         | None \<Rightarrow>
             (case children_head s of
                Some (h, s1) \<Rightarrow>
                  (case parse_markers n True s1 of
                     None \<Rightarrow> None
                   | Some (cs, s2, closed) \<Rightarrow>
                       if closed
                       then followed_by ((#) (make_marker h cs None)) (parse_markers n nested s2)
                       else Some ([Text (c # s)], [], False))
              | None \<Rightarrow>
                  if take 1 s = ''{'' \<and> CHR ''}'' \<notin> set s then Some ([Text (c # s)], [], False)
                  else (case bare s of
                          Some (m, s') \<Rightarrow> followed_by ((#) m) (parse_markers n nested s')
                        | None \<Rightarrow> followed_by (add_text [c]) (parse_markers n nested s))))
      else followed_by (add_text [c]) (parse_markers n nested s))"

text \<open>Modelled from the spec: "tabstop \<open>i\<close> occurs in the tree" (section 4.1).\<close>

fun has_tabstop :: "nat \<Rightarrow> marker \<Rightarrow> bool" where
  "has_tabstop i (Text s) = False"
| "has_tabstop i (Placeholder j cs ch t) = (i = j \<or> list_ex (has_tabstop i) cs)"
| "has_tabstop i (Variable x cs t) = list_ex (has_tabstop i) cs"

text \<open>
  Modelled from the spec: \<^verbatim>\<open>parse(template, insertFinalTabstop)\<close> (section 4.1): the
  top-level sequence of the template, with an empty placeholder 0 appended when
  \<^verbatim>\<open>insertFinalTabstop\<close> is true and no tabstop 0 occurs in the tree. The fuel is one more
  than the length of the template; \<open>None\<close> would be a parse that does not return.
\<close>

definition parse :: "string \<Rightarrow> bool \<Rightarrow> marker list option" where
  "parse template insertFinalTabstop =
     (case parse_markers (Suc (length template)) False template of
        None \<Rightarrow> None
      | Some (ms, rest, closed) \<Rightarrow>
          if insertFinalTabstop \<and> \<not> list_ex (has_tabstop 0) ms
          then Some (ms @ [Placeholder 0 [] None None])
          else Some ms)"

section \<open>The marker tree and the session, modelled from the specification\<close>

text \<open>
  Modelled from the spec: the application of a Transform to the plain-text value of its
  owner (section 3). The regular-expression engine is outside the model: the operations
  below take the function \<open>tf\<close> that applies a transform to a string as a parameter.
\<close>

type_synonym transformer = "transform \<Rightarrow> string \<Rightarrow> string"

text \<open>
  Modelled from the spec: \<^verbatim>\<open>render()\<close> of the missing marker tree (section 4.2): "for
  Placeholder/Variable, render = render of children, or the Transform's output applied
  to that rendered value if a Transform is present, or the first choice if a choice
  list is present and children are empty".
\<close>

fun render :: "transformer \<Rightarrow> marker \<Rightarrow> string" where
  "render tf (Text s) = s"
| "render tf (Placeholder i cs ch t) =
     (case t of
        Some T \<Rightarrow> tf T (concat (map (render tf) cs))
      | None \<Rightarrow>
          (case ch of
             Some (c # more_choices) \<Rightarrow> if cs = [] then c else concat (map (render tf) cs)
           | _ \<Rightarrow> concat (map (render tf) cs)))"
| "render tf (Variable x cs t) =
     (case t of
        Some T \<Rightarrow> tf T (concat (map (render tf) cs))
      | None \<Rightarrow> concat (map (render tf) cs))"

text \<open>Modelled from the spec: the rendered text of a snippet, its markers left to right.\<close>

definition render_all :: "transformer \<Rightarrow> marker list \<Rightarrow> string" where
  "render_all tf ms = concat (map (render tf) ms)"

text \<open>
  Modelled from the spec: \<^verbatim>\<open>resolveVariables(resolver)\<close> of the missing marker tree (section
  4.2): "for every Variable marker with empty children, requests a value from the
  Variable Resolver by name; if the resolver returns no value, the Variable's own
  declared default children (or empty string) are used instead".
\<close>

fun resolve_marker :: "(string \<Rightarrow> string option) \<Rightarrow> marker \<Rightarrow> marker" where
  "resolve_marker resolver (Text s) = Text s"
| "resolve_marker resolver (Placeholder i cs ch t) =
     Placeholder i (map (resolve_marker resolver) cs) ch t"
| "resolve_marker resolver (Variable x [] t) =
     (case resolver x of None \<Rightarrow> Variable x [] t | Some v \<Rightarrow> Variable x [Text v] t)"
| "resolve_marker resolver (Variable x (c # cs) t) =
     Variable x (map (resolve_marker resolver) (c # cs)) t"

text \<open>
  Modelled from the spec: \<^verbatim>\<open>resolveVariables(resolver)\<close> (section 4.2) on a snippet: the
  pass over each marker of the top-level sequence.
\<close>

definition resolveVariables :: "(string \<Rightarrow> string option) \<Rightarrow> marker list \<Rightarrow> marker list" where
  "resolveVariables resolver ms = map (resolve_marker resolver) ms"

text \<open>Modelled from the spec: the tabstop indices of a tree, in document order.\<close>

fun tabstops :: "marker \<Rightarrow> nat list" where
  "tabstops (Text s) = []"
| "tabstops (Placeholder i cs ch t) = i # concat (map tabstops cs)"
| "tabstops (Variable x cs t) = concat (map tabstops cs)"

text \<open>
  Modelled from the spec: the navigation order of the session state (section 3): "the
  ordered list of distinct tabstop indices excluding 0 (navigation order), with 0
  appended as the terminal stop", the indices ascending (section 4.4).
\<close>

definition navigation_order :: "marker list \<Rightarrow> nat list" where
  "navigation_order ms =
     sort (remdups (filter (\<lambda>i. i \<noteq> 0) (concat (map tabstops ms)))) @ [0]"


text \<open>
  Modelled from the spec: \<^verbatim>\<open>computeOffsets\<close> (section 4.2), read off for the placeholders
  of index \<open>i\<close>: their half-open spans in the rendered string, in document order,
  walking the tree left to right from offset \<open>off\<close>.
\<close>

fun group_spans :: "transformer \<Rightarrow> nat \<Rightarrow> nat \<Rightarrow> marker list \<Rightarrow> (nat \<times> nat) list" where
  "group_spans tf i off [] = []"
| "group_spans tf i off (Text s # ms) = group_spans tf i (off + length s) ms"
| "group_spans tf i off (Placeholder j cs ch t # ms) =
     (if j = i then [(off, off + length (render tf (Placeholder j cs ch t)))] else []) @
     group_spans tf i off cs @
     group_spans tf i (off + length (render tf (Placeholder j cs ch t))) ms"
| "group_spans tf i off (Variable x cs t # ms) =
     group_spans tf i off cs @
     group_spans tf i (off + length (render tf (Variable x cs t))) ms"

text \<open>Modelled from the spec: the span of the canonical mirror of index \<open>i\<close>, the first.\<close>

definition find_span :: "transformer \<Rightarrow> nat \<Rightarrow> nat \<Rightarrow> marker list \<Rightarrow> (nat \<times> nat) option" where
  "find_span tf i off ms =
     (case group_spans tf i off ms of [] \<Rightarrow> None | span # others \<Rightarrow> Some span)"



text \<open>
  Modelled from the spec: the session state (section 3): buffer identifier, marker tree,
  active tabstop index (\<open>None\<close> is the state Inactive) and navigation order. The
  Placeholder Group Index is derived from the tree, by \<open>mirror_group\<close>.
\<close>

record session =
  buffer :: nat
  markers :: "marker list"
  active :: "nat option"
  navigation :: "nat list"

text \<open>
  Modelled from the spec: the requests a session makes of the Text Buffer collaborator
  (section 6), with offsets into the rendered text in place of editor positions.
\<close>

datatype request =
    InsertText nat string
  | ReplaceRange "nat \<times> nat" string
  | SetSelection "nat \<times> nat"
  | SetCursor nat

text \<open>
  Modelled from the spec: the request that places the selection over the span of
  tabstop \<open>i\<close> ("selecting it if \<^verbatim>\<open>selectOnInsert\<close>, else collapsing the cursor to its end").
\<close>

definition place :: "transformer \<Rightarrow> bool \<Rightarrow> nat \<Rightarrow> marker list \<Rightarrow> request list" where
  "place tf select i ms =
     (case find_span tf i 0 ms of
        None \<Rightarrow> []
      | Some (a, b) \<Rightarrow> if select then [SetSelection (a, b)] else [SetCursor b])"

text \<open>
  Modelled from the spec: \<^verbatim>\<open>start(template, selectOnInsert, position)\<close> (section 4.4). The
  template is parsed and its variables resolved; the rendered text is inserted. "If no
  tabstops exist at all, start inserts the text and returns not-active"; otherwise
  tabstop 0 is appended where the template does not declare it, and the session becomes
  active at the first index of the navigation order: the lowest non-zero index, "or
  tabstop 0 if none other exists". The result is \<^verbatim>\<open>isActive\<close>, the session and the
  requests made; \<open>None\<close> would be a parse that does not return.
\<close>

definition start_session ::
  "transformer \<Rightarrow> (string \<Rightarrow> string option) \<Rightarrow> nat \<Rightarrow> string \<Rightarrow> bool \<Rightarrow> nat \<Rightarrow>
     (bool \<times> session \<times> request list) option" where
  "start_session tf resolver buf template selectOnInsert position =
     (case parse template False of
        None \<Rightarrow> None
      | Some declared \<Rightarrow>
          if concat (map tabstops declared) = [] then
            Some (False,
                  \<lparr>buffer = buf, markers = resolveVariables resolver declared, active = None,
                   navigation = []\<rparr>,
                  [InsertText position (render_all tf (resolveVariables resolver declared))])
          else
            (case parse template True of
               None \<Rightarrow> None
             | Some full \<Rightarrow>
                 Some (True,
                       \<lparr>buffer = buf, markers = resolveVariables resolver full,
                        active = Some (hd (navigation_order (resolveVariables resolver full))),
                        navigation = navigation_order (resolveVariables resolver full)\<rparr>,
                       InsertText position (render_all tf (resolveVariables resolver full)) #
                       place tf selectOnInsert
                         (hd (navigation_order (resolveVariables resolver full)))
                         (resolveVariables resolver full))))"

text \<open>
  Modelled from the spec: the index after \<open>i\<close> in the navigation order (section 4.4,
  "advances"); \<open>None\<close> when \<open>i\<close> is the last.
\<close>

definition successor :: "nat \<Rightarrow> nat list \<Rightarrow> nat option" where
  "successor i order =
     (case dropWhile (\<lambda>j. j \<noteq> i) order of
        [] \<Rightarrow> None
      | j # rest \<Rightarrow> (case rest of [] \<Rightarrow> None | k # later \<Rightarrow> Some k))"

text \<open>
  Modelled from the spec: the index before \<open>i\<close> in the navigation order (section 4.4,
  "retreats"); \<open>None\<close> when \<open>i\<close> is the first.
\<close>

definition predecessor :: "nat \<Rightarrow> nat list \<Rightarrow> nat option" where
  "predecessor i order =
     (case takeWhile (\<lambda>j. j \<noteq> i) order of [] \<Rightarrow> None | j # rest \<Rightarrow> Some (last (j # rest)))"

text \<open>
  Modelled from the spec: \<^verbatim>\<open>deactivate()/cancel()\<close> (section 4.4): "transitions to Inactive
  immediately; the already-inserted text is left untouched": no request is made.
\<close>

definition deactivate_session :: "session \<Rightarrow> session \<times> request list" where
  "deactivate_session s = (s\<lparr>active := None\<rparr>, [])"

text \<open>
  Modelled from the spec: \<^verbatim>\<open>nextPlaceholder()\<close> (section 4.4): the active index advances
  through the navigation order, each move selecting the new marker; "moving past the
  last non-zero tabstop activates tabstop 0 and then deactivates the session".
\<close>

definition next_placeholder :: "transformer \<Rightarrow> session \<Rightarrow> session \<times> request list" where
  "next_placeholder tf s =
     (case active s of
        None \<Rightarrow> (s, [])
      | Some i \<Rightarrow>
          (case successor i (navigation s) of
             None \<Rightarrow> deactivate_session s
           | Some j \<Rightarrow>
               if j = 0 then (s\<lparr>active := None\<rparr>, place tf True 0 (markers s))
               else (s\<lparr>active := Some j\<rparr>, place tf True j (markers s))))"

text \<open>
  Modelled from the spec: \<^verbatim>\<open>previousPlaceholder()\<close> (section 4.4): the active index retreats
  through the navigation order; "moving before the first tabstop is a no-op".
\<close>

definition previous_placeholder :: "transformer \<Rightarrow> session \<Rightarrow> session \<times> request list" where
  "previous_placeholder tf s =
     (case active s of
        None \<Rightarrow> (s, [])
      | Some i \<Rightarrow>
          (case predecessor i (navigation s) of
             None \<Rightarrow> (s, [])
           | Some j \<Rightarrow> (s\<lparr>active := Some j\<rparr>, place tf True j (markers s))))"

text \<open>
  Modelled from the spec: a change notification \<^verbatim>\<open>{range, newText}\<close> (section 6), the range
  in offsets into the rendered text.
\<close>

record change =
  from_offset :: nat
  to_offset :: nat
  replacement :: string



text \<open>
  Modelled from the spec: the children of a form \<^verbatim>\<open>${<digits>:<children>}\<close> or
  \<^verbatim>\<open>${<name>:<children>}\<close> (section 4.1), read from \<open>s\<close> on, end at the closing brace of the
  form.
\<close>

definition children_closed :: "string \<Rightarrow> bool" where
  "children_closed s =
     (case parse_markers (Suc (length s)) True s of
        None \<Rightarrow> False
      | Some (cs, r, closed) \<Rightarrow> closed)"

text \<open>
  Modelled from the spec: the first character of \<open>s\<close> is literal text (section 4.1): it
  does not close the form the sequence is nested in, it starts no escape sequence (a
  backslash before anything but \<^verbatim>\<open>$\<close>, \<^verbatim>\<open>}\<close> or a backslash is an unknown escape, section 7),
  and, when it is a \<^verbatim>\<open>$\<close>, it starts no form of the grammar and no unterminated brace ("any
  other \<^verbatim>\<open>$\<close> not matching the above is a literal Text character").
\<close>

definition literal_head :: "bool \<Rightarrow> string \<Rightarrow> bool" where
  "literal_head nested s =
     (case s of
        [] \<Rightarrow> False
      | c # r \<Rightarrow>
          \<not> (c = CHR ''}'' \<and> nested) \<and>
          (c = backslash \<longrightarrow>
             (case r of [] \<Rightarrow> True | e # r' \<Rightarrow> e \<notin> {CHR ''$'', CHR ''}'', backslash})) \<and>
          (c = CHR ''$'' \<longrightarrow>
             braced_flat r = None \<and> children_head r = None \<and> bare r = None \<and>
             \<not> (take 1 r = ''{'' \<and> CHR ''}'' \<notin> set r)))"

text \<open>
  Modelled from the spec: every character of the span \<open>a\<close> is literal text where it
  stands, \<open>b\<close> being the input after the span.
\<close>

fun literal_span :: "bool \<Rightarrow> string \<Rightarrow> string \<Rightarrow> bool" where
  "literal_span nested [] b = True"
| "literal_span nested (c # a) b = (literal_head nested (c # a @ b) \<and> literal_span nested a b)"

text \<open>
  Modelled from the spec: \<open>s\<close> starts with an unterminated brace (section 4.1): a \<^verbatim>\<open>${\<close>
  that opens a form with children whose closing brace never comes, or that no closing
  brace follows at all.
\<close>

definition unterminated :: "string \<Rightarrow> bool" where
  "unterminated s =
     (case s of
        [] \<Rightarrow> False
      | c # r \<Rightarrow>
          c = CHR ''$'' \<and> braced_flat r = None \<and>
          (case children_head r of
             Some (h, s1) \<Rightarrow> \<not> children_closed s1
           | None \<Rightarrow> take 1 r = ''{'' \<and> CHR ''}'' \<notin> set r))"




section \<open>Properties of the language provider\<close>

lemma rmatch_ext:
  "rmatch (Cat (Lit a) (Cat (Lit b) (Cat (Opt (Lit c)) EndOfInput))) s \<noteq> [] \<longleftrightarrow>
     s = [a, b] \<or> s = [a, b, c]"
  by (auto split: list.splits)

lemma regex_test_ext:
  "regex_test (Cat (Lit a) (Cat (Lit b) (Cat (Opt (Lit c)) EndOfInput))) s \<longleftrightarrow>
     suffix [a, b] s \<or> suffix [a, b, c] s"
proof (induction s)
  case Nil
  show ?case by simp
next
  case (Cons d s)
  have "regex_test (Cat (Lit a) (Cat (Lit b) (Cat (Opt (Lit c)) EndOfInput))) (d # s) \<longleftrightarrow>
          (d # s = [a, b] \<or> d # s = [a, b, c]) \<or> suffix [a, b] s \<or> suffix [a, b, c] s"
    using Cons.IH rmatch_ext [of a b c "d # s"] by simp
  also have "\<dots> \<longleftrightarrow> suffix [a, b] (d # s) \<or> suffix [a, b, c] (d # s)"
    by (auto simp: suffix_Cons)
  finally show ?case .
qed

lemma regex_test_ts: "regex_test re_ts p \<longleftrightarrow> suffix ''ts'' p \<or> suffix ''tsx'' p"
  unfolding re_ts_def by (rule regex_test_ext)

lemma regex_test_js: "regex_test re_js p \<longleftrightarrow> suffix ''js'' p \<or> suffix ''jsx'' p"
  unfolding re_js_def by (rule regex_test_ext)

section \<open>Properties of the snippet manager\<close>

lemma hide_if_defined_simps [simp]:
  "sessionMap (hide_if_defined this) = sessionMap this"
  "constructed (hide_if_defined this) = constructed this"
  "calls (hide_if_defined this) = calls this"
  "(statusItem (hide_if_defined this) = None) = (statusItem this = None)"
  by (simp_all add: hide_if_defined_def split: option.splits)

lemma cancel_listener_simps [simp]:
  "sessionMap (cancel_listener ws b this) = (sessionMap this)(b := None)"
  "constructed (cancel_listener ws b this) = constructed this"
  "calls (cancel_listener ws b this) = calls this"
  "(statusItem (cancel_listener ws b this) = None) = (statusItem this = None)"
  by (simp_all add: cancel_listener_def Let_def)

lemma fire_cancel_aux:
  "sessionMap (fold (cancel_listener ws) bs this) k =
     (if k \<in> set bs then None else sessionMap this k) \<and>
   constructed (fold (cancel_listener ws) bs this) = constructed this \<and>
   calls (fold (cancel_listener ws) bs this) = calls this \<and>
   ((statusItem (fold (cancel_listener ws) bs this) = None) = (statusItem this = None))"
  by (induction bs arbitrary: this) auto

lemma fire_cancel_simps [simp]:
  "sessionMap (fire_cancel ws s this) k =
     (if k \<in> set (onCancel s) then None else sessionMap this k)"
  "constructed (fire_cancel ws s this) = constructed this"
  "calls (fire_cancel ws s this) = calls this"
  "(statusItem (fire_cancel ws s this) = None) = (statusItem this = None)"
  using fire_cancel_aux [of ws "onCancel s" this k] by (simp_all add: fire_cancel_def)

lemma effects_simps [simp]:
  "sessionMap (effects ws s c out this) k =
     (if cancelled out \<and> k \<in> set (onCancel s) then None else sessionMap this k)"
  "constructed (effects ws s c out this) = constructed this"
  "calls (effects ws s c out this) =
     calls this @ c # map (Buffer_edit (session_bufnr s)) (edits out)"
  "(statusItem (effects ws s c out this) = None) = (statusItem this = None)"
  by (simp_all add: effects_def Let_def)

lemma call_registered_simps [simp]:
  "sessionMap (call_registered ws key s c out this) k =
     (if cancelled out \<and> k \<in> set (onCancel s) then None
      else if k = key then Some (s\<lparr>members := after out\<rparr>) else sessionMap this k)"
  "constructed (call_registered ws key s c out this) = constructed this"
  "calls (call_registered ws key s c out this) =
     calls this @ c # map (Buffer_edit (session_bufnr s)) (edits out)"
  "(statusItem (call_registered ws key s c out this) = None) = (statusItem this = None)"
  by (simp_all add: call_registered_def)

lemma sync_args_append [simp]: "sync_args (xs @ ys) = sync_args xs @ sync_args ys"
  by (induction xs rule: sync_args.induct) auto

lemma sync_args_edits [simp]: "sync_args (map (Buffer_edit b) es) = []"
  by (induction es) auto

lemma buffer_edits_append [simp]: "buffer_edits (xs @ ys) = buffer_edits xs @ buffer_edits ys"
  by (induction xs rule: buffer_edits.induct) auto

lemma buffer_edits_map [simp]: "buffer_edits (map (Buffer_edit b) es) = map (Pair b) es"
  by (induction es) auto

lemma count_resolve_edits [simp]:
  "count_list (map (Buffer_edit b) es) Snippet_resolveVariables = 0"
  by (induction es) auto

lemma count_list_append [simp]:
  "count_list (xs @ ys) x = count_list xs x + count_list ys x"
  by (induction xs) auto

lemma registry_okI:
  assumes "\<And>b s. sessionMap this b = Some s \<Longrightarrow>
             session_bufnr s = b \<and> onCancel s = [b] \<and> oid s < constructed this"
    and "\<And>b b' s s'. sessionMap this b = Some s \<Longrightarrow> sessionMap this b' = Some s' \<Longrightarrow>
             oid s = oid s' \<Longrightarrow> b = b'"
  shows "registry_ok this"
  unfolding registry_ok_def using assms by blast

lemma registry_okD:
  assumes "registry_ok this" "sessionMap this b = Some s"
  shows "session_bufnr s = b" "onCancel s = [b]" "oid s < constructed this"
  using assms unfolding registry_ok_def by blast+

lemma registry_ok_inj:
  assumes "registry_ok this" "sessionMap this b = Some s" "sessionMap this b' = Some s'"
    "oid s = oid s'"
  shows "b = b'"
  using assms unfolding registry_ok_def by blast

lemma registry_ok_new_manager: "registry_ok new_manager"
  by (simp add: registry_ok_def new_manager_def)

lemma registry_ok_update:
  assumes ok: "registry_ok this"
    and map: "\<And>k. sessionMap this' k = (if k = b then Some s else sessionMap this k)"
    and mono: "constructed this \<le> constructed this'"
    and s: "session_bufnr s = b" "onCancel s = [b]" "oid s < constructed this'"
    and fresh: "\<And>k t. k \<noteq> b \<Longrightarrow> sessionMap this k = Some t \<Longrightarrow> oid t \<noteq> oid s"
  shows "registry_ok this'"
proof (rule registry_okI)
  fix k t
  assume "sessionMap this' k = Some t"
  then have "(k = b \<and> t = s) \<or> (k \<noteq> b \<and> sessionMap this k = Some t)"
    by (simp add: map split: if_splits)
  then show "session_bufnr t = k \<and> onCancel t = [k] \<and> oid t < constructed this'"
    using s mono registry_okD [OF ok, of k t] by auto
next
  fix k k' t t'
  assume a: "sessionMap this' k = Some t" "sessionMap this' k' = Some t'" "oid t = oid t'"
  have 1: "(k = b \<and> t = s) \<or> (k \<noteq> b \<and> sessionMap this k = Some t)"
    using a(1) by (simp add: map split: if_splits)
  have 2: "(k' = b \<and> t' = s) \<or> (k' \<noteq> b \<and> sessionMap this k' = Some t')"
    using a(2) by (simp add: map split: if_splits)
  show "k = k'"
    using 1 2 a(3) fresh [of k t] fresh [of k' t'] registry_ok_inj [OF ok, of k t k' t']
    by auto
qed

lemma registry_ok_delete:
  assumes ok: "registry_ok this"
    and map: "\<And>k. sessionMap this' k = (if k = b then None else sessionMap this k)"
    and mono: "constructed this \<le> constructed this'"
  shows "registry_ok this'"
proof (rule registry_okI)
  fix k t
  assume "sessionMap this' k = Some t"
  then have "sessionMap this k = Some t"
    by (simp add: map split: if_splits)
  then show "session_bufnr t = k \<and> onCancel t = [k] \<and> oid t < constructed this'"
    using mono registry_okD [OF ok, of k t] by auto
next
  fix k k' t t'
  assume a: "sessionMap this' k = Some t" "sessionMap this' k' = Some t'" "oid t = oid t'"
  have "sessionMap this k = Some t" "sessionMap this k' = Some t'"
    using a(1,2) by (simp_all add: map split: if_splits)
  then show "k = k'"
    using registry_ok_inj [OF ok, of k t k' t'] a(3) by simp
qed

lemma registry_ok_same:
  assumes ok: "registry_ok this"
    and map: "\<And>k. sessionMap this' k = sessionMap this k"
    and mono: "constructed this \<le> constructed this'"
  shows "registry_ok this'"
proof (rule registry_okI)
  fix k t
  assume "sessionMap this' k = Some t"
  then show "session_bufnr t = k \<and> onCancel t = [k] \<and> oid t < constructed this'"
    using mono registry_okD [OF ok, of k t] by (auto simp: map)
next
  fix k k' t t'
  assume "sessionMap this' k = Some t" "sessionMap this' k' = Some t'" "oid t = oid t'"
  then show "k = k'"
    using registry_ok_inj [OF ok, of k t k' t'] by (simp add: map)
qed


lemma insertSnippet_sessionMap:
  "sessionMap (snd (insertSnippet cls ws snippet select position this)) k =
     (let bufnr = nvim_bufnr ws;
          session = (case sessionMap this bufnr of
                       None \<Rightarrow> \<lparr>oid = constructed this, session_bufnr = bufnr,
                                 onCancel = [bufnr], members = new_session cls bufnr\<rparr>
                     | Some s \<Rightarrow> s);
          out = start cls snippet select position (members session)
      in if k = bufnr \<and> returned out then Some (session\<lparr>members := after out\<rparr>)
         else if cancelled out \<and> k \<in> set (onCancel session) then None
         else if k = bufnr \<and> sessionMap this bufnr \<noteq> None then Some (session\<lparr>members := after out\<rparr>)
         else sessionMap this k)"
  by (auto simp: insertSnippet_def getSession_def Let_def split: option.splits)

lemma insertSnippet_constructed:
  "constructed (snd (insertSnippet cls ws snippet select position this)) =
     (if sessionMap this (nvim_bufnr ws) = None then Suc (constructed this) else constructed this)"
  by (auto simp: insertSnippet_def getSession_def Let_def split: option.splits)

lemma insertSnippet_result:
  "fst (insertSnippet cls ws snippet select position this) =
     (let bufnr = nvim_bufnr ws;
          s = (case sessionMap this bufnr of None \<Rightarrow> new_session cls bufnr | Some s \<Rightarrow> members s);
          out = start cls snippet select position s
      in if returned out \<and> statusItem this = None then Inl TypeError else Inr (returned out))"
  by (simp add: insertSnippet_def getSession_def Let_def option.case_eq_if del: not_None_eq)

lemma insertSnippet_calls:
  "calls (snd (insertSnippet cls ws snippet select position this)) =
     (let bufnr = nvim_bufnr ws;
          session = (case sessionMap this bufnr of
                       None \<Rightarrow> \<lparr>oid = constructed this, session_bufnr = bufnr,
                                 onCancel = [bufnr], members = new_session cls bufnr\<rparr>
                     | Some s \<Rightarrow> s);
          out = start cls snippet select position (members session)
      in calls this @ Session_start (oid session) snippet select position #
           map (Buffer_edit (session_bufnr session)) (edits out))"
  by (auto simp: insertSnippet_def getSession_def Let_def split: option.splits)

lemma insertSnippet_sessionMap_new:
  assumes "sessionMap this (nvim_bufnr ws) = None"
  shows "sessionMap (snd (insertSnippet cls ws snippet select position this)) k =
     (if k = nvim_bufnr ws \<and> returned (start cls snippet select position (new_session cls (nvim_bufnr ws)))
      then Some \<lparr>oid = constructed this, session_bufnr = nvim_bufnr ws, onCancel = [nvim_bufnr ws],
                 members = after (start cls snippet select position (new_session cls (nvim_bufnr ws)))\<rparr>
      else sessionMap this k)"
  using assms by (simp add: insertSnippet_sessionMap Let_def)

lemma insertSnippet_sessionMap_registered:
  assumes "sessionMap this (nvim_bufnr ws) = Some session" "onCancel session = [nvim_bufnr ws]"
  shows "sessionMap (snd (insertSnippet cls ws snippet select position this)) k =
     (if k = nvim_bufnr ws then
        (if cancelled (start cls snippet select position (members session)) \<and>
            \<not> returned (start cls snippet select position (members session))
         then None
         else Some (session\<lparr>members := after (start cls snippet select position (members session))\<rparr>))
      else sessionMap this k)"
  using assms by (simp add: insertSnippet_sessionMap Let_def)


lemma registry_ok_insertSnippet:
  assumes ok: "registry_ok this"
  shows "registry_ok (snd (insertSnippet cls ws snippet select position this))"
proof (cases "sessionMap this (nvim_bufnr ws)")
  case None
  let ?out = "start cls snippet select position (new_session cls (nvim_bufnr ws))"
  show ?thesis
  proof (cases "returned ?out")
    case True
    show ?thesis
    proof (rule registry_ok_update [OF ok])
      show "sessionMap (snd (insertSnippet cls ws snippet select position this)) k =
          (if k = nvim_bufnr ws
           then Some \<lparr>oid = constructed this, session_bufnr = nvim_bufnr ws,
                       onCancel = [nvim_bufnr ws], members = after ?out\<rparr>
           else sessionMap this k)" for k
        using True by (simp add: insertSnippet_sessionMap_new [OF None])
      show "oid t \<noteq> oid \<lparr>oid = constructed this, session_bufnr = nvim_bufnr ws,
                       onCancel = [nvim_bufnr ws], members = after ?out\<rparr>"
        if "sessionMap this k = Some t" for k t
        using registry_okD(3) [OF ok that] by simp
    qed (simp_all add: insertSnippet_constructed None)
  next
    case False
    show ?thesis
      by (rule registry_ok_same [OF ok])
        (simp_all add: insertSnippet_sessionMap_new [OF None] False insertSnippet_constructed)
  qed
next
  case (Some session)
  note reg = registry_okD [OF ok Some]
  let ?out = "start cls snippet select position (members session)"
  show ?thesis
  proof (cases "cancelled ?out \<and> \<not> returned ?out")
    case True
    show ?thesis
    proof (rule registry_ok_delete [OF ok, of _ "nvim_bufnr ws"])
      show "sessionMap (snd (insertSnippet cls ws snippet select position this)) k =
          (if k = nvim_bufnr ws then None else sessionMap this k)" for k
        using True by (simp add: insertSnippet_sessionMap_registered [OF Some reg(2)])
    qed (simp add: insertSnippet_constructed)
  next
    case False
    show ?thesis
    proof (rule registry_ok_update [OF ok, of _ "nvim_bufnr ws" "session\<lparr>members := after ?out\<rparr>"])
      show "sessionMap (snd (insertSnippet cls ws snippet select position this)) k =
          (if k = nvim_bufnr ws then Some (session\<lparr>members := after ?out\<rparr>)
           else sessionMap this k)" for k
        using False by (auto simp add: insertSnippet_sessionMap_registered [OF Some reg(2)])
      show "oid t \<noteq> oid (session\<lparr>members := after ?out\<rparr>)"
        if "k \<noteq> nvim_bufnr ws" "sessionMap this k = Some t" for k t
        using registry_ok_inj [OF ok that(2) Some] that(1) by auto
    qed (simp_all add: insertSnippet_constructed Some reg)
  qed
qed


lemma registry_ok_call_registered:
  assumes ok: "registry_ok this" and reg: "sessionMap this b = Some s"
  shows "registry_ok (call_registered ws b s c out this)"
proof (cases "cancelled out")
  case True
  show ?thesis
    by (rule registry_ok_delete [OF ok, of _ b])
      (simp_all add: True registry_okD(2) [OF ok reg])
next
  case False
  show ?thesis
  proof (rule registry_ok_update [OF ok, of _ b "s\<lparr>members := after out\<rparr>"])
    show "oid t \<noteq> oid (s\<lparr>members := after out\<rparr>)"
      if "k \<noteq> b" "sessionMap this k = Some t" for k t
      using registry_ok_inj [OF ok that(2) reg] that(1) by auto
  qed (simp_all add: False registry_okD [OF ok reg])
qed

lemma registry_ok_onDidChangeTextDocument:
  assumes ok: "registry_ok this"
  shows "registry_ok (onDidChangeTextDocument cls ws e this)"
proof (cases "getDocument ws (textDocument_uri e)")
  case None
  then show ?thesis using ok by (simp add: onDidChangeTextDocument_def)
next
  case doc: (Some b)
  show ?thesis
  proof (cases "sessionMap this b")
    case None
    then show ?thesis using ok doc by (simp add: onDidChangeTextDocument_def getSession_def)
  next
    case (Some s)
    then show ?thesis
      using doc ok
      by (simp add: onDidChangeTextDocument_def getSession_def
          registry_ok_call_registered [OF ok Some])
  qed
qed

lemma registry_ok_onDidCloseTextDocument:
  assumes ok: "registry_ok this"
  shows "registry_ok (onDidCloseTextDocument ws textDocument this)"
proof (cases "getDocument ws textDocument")
  case None
  then show ?thesis using ok by (simp add: onDidCloseTextDocument_def)
next
  case doc: (Some b)
  show ?thesis
  proof (cases "sessionMap this b")
    case None
    then show ?thesis using ok doc by (simp add: onDidCloseTextDocument_def getSession_def)
  next
    case (Some s)
    have "onDidCloseTextDocument ws textDocument this =
        this\<lparr>sessionMap := (sessionMap this)(b := None)\<rparr>"
      using doc Some registry_okD(1) [OF ok Some]
      by (simp add: onDidCloseTextDocument_def getSession_def)
    moreover have "registry_ok (this\<lparr>sessionMap := (sessionMap this)(b := None)\<rparr>)"
      by (rule registry_ok_delete [OF ok, of _ b]) simp_all
    ultimately show ?thesis by simp
  qed
qed

lemma registry_ok_statusItem [simp]:
  "registry_ok (this\<lparr>statusItem := x\<rparr>) = registry_ok this"
  by (simp add: registry_ok_def)

lemma registry_ok_calls [simp]:
  "registry_ok (this\<lparr>calls := x\<rparr>) = registry_ok this"
  by (simp add: registry_ok_def)

lemma registry_ok_hide_if_defined [simp]:
  "registry_ok (hide_if_defined this) = registry_ok this"
  by (simp add: hide_if_defined_def split: option.splits)

lemma registry_ok_onBufEnter:
  "registry_ok this \<Longrightarrow> registry_ok (onBufEnter cls bufnr this)"
  by (simp add: onBufEnter_def split: option.splits)

lemma active_session_Some:
  "active_session cls ws this = Some s \<Longrightarrow> sessionMap this (workspace_bufnr ws) = Some s"
  by (simp add: active_session_def getSession_def split: option.splits if_splits)

lemma registry_ok_call_active:
  assumes "registry_ok this" "active_session cls ws this = Some s"
  shows "registry_ok (call_registered ws (workspace_bufnr ws) s c out this)"
  using assms by (simp add: registry_ok_call_registered active_session_Some)

lemma registry_ok_onInsertEnter:
  assumes ok: "registry_ok this"
  shows "registry_ok (onInsertEnter cls ws this)"
proof (cases "active_session cls ws this")
  case None
  then show ?thesis using ok by (simp add: onInsertEnter_def)
next
  case (Some s)
  then show ?thesis by (simp add: onInsertEnter_def registry_ok_call_active [OF ok Some])
qed

lemma registry_ok_selectCurrentPlaceholder:
  assumes ok: "registry_ok this"
  shows "registry_ok (manager_selectCurrentPlaceholder cls ws this)"
proof (cases "active_session cls ws this")
  case None
  then show ?thesis using ok by (simp add: manager_selectCurrentPlaceholder_def)
next
  case (Some s)
  then show ?thesis
    by (simp add: manager_selectCurrentPlaceholder_def registry_ok_call_active [OF ok Some])
qed

lemma registry_ok_disable_and_hide:
  "registry_ok this \<Longrightarrow> registry_ok (snd (disable_and_hide this))"
  by (simp add: disable_and_hide_def Let_def split: option.splits)

lemma registry_ok_nextPlaceholder:
  assumes ok: "registry_ok this"
  shows "registry_ok (snd (manager_nextPlaceholder cls ws this))"
proof (cases "active_session cls ws this")
  case None
  then show ?thesis
    using registry_ok_disable_and_hide [OF ok] by (simp add: manager_nextPlaceholder_def)
next
  case (Some s)
  then show ?thesis
    by (simp add: manager_nextPlaceholder_def registry_ok_call_active [OF ok Some])
qed

lemma registry_ok_previousPlaceholder:
  assumes ok: "registry_ok this"
  shows "registry_ok (snd (manager_previousPlaceholder cls ws this))"
proof (cases "active_session cls ws this")
  case None
  then show ?thesis
    using registry_ok_disable_and_hide [OF ok] by (simp add: manager_previousPlaceholder_def)
next
  case (Some s)
  then show ?thesis
    by (simp add: manager_previousPlaceholder_def registry_ok_call_active [OF ok Some])
qed

lemma registry_ok_cancel:
  assumes ok: "registry_ok this"
  shows "registry_ok (cancel cls ws this)"
proof (cases "sessionMap this (workspace_bufnr ws)")
  case None
  then show ?thesis using ok by (simp add: cancel_def getSession_def)
next
  case (Some s)
  then show ?thesis
    by (simp add: cancel_def getSession_def registry_ok_call_registered [OF ok Some])
qed

lemma registry_ok_resolveSnippet:
  "registry_ok this \<Longrightarrow> registry_ok (snd (resolveSnippet md body this))"
  by (simp add: resolveSnippet_def Let_def)

lemma reachable_registry_ok:
  "reachable cls md this \<Longrightarrow> registry_ok this"
proof (induction rule: reachable.induct)
  case constructed
  show ?case by (rule registry_ok_new_manager)
next
  case (ready this)
  then show ?case by simp
next
  case (didChange this ws e)
  then show ?case by (simp add: registry_ok_onDidChangeTextDocument)
next
  case (didClose this ws textDocument)
  then show ?case by (simp add: registry_ok_onDidCloseTextDocument)
next
  case (bufEnter this bufnr)
  then show ?case by (simp add: registry_ok_onBufEnter)
next
  case (insertEnter this ws)
  then show ?case by (simp add: registry_ok_onInsertEnter)
next
  case (insert this ws snippet select position)
  then show ?case by (simp add: registry_ok_insertSnippet)
next
  case (select this ws)
  then show ?case by (simp add: registry_ok_selectCurrentPlaceholder)
next
  case (next_ph this ws)
  then show ?case by (simp add: registry_ok_nextPlaceholder)
next
  case (previous_ph this ws)
  then show ?case by (simp add: registry_ok_previousPlaceholder)
next
  case (cancel this ws)
  then show ?case by (simp add: registry_ok_cancel)
next
  case (resolve this body)
  then show ?case by (simp add: registry_ok_resolveSnippet)
qed




lemma cancel_calls:
  "calls (cancel cls ws this) =
     calls this @
     (case sessionMap this (workspace_bufnr ws) of
        None \<Rightarrow> [Nvim_call ''coc#snippet#disable'']
      | Some s \<Rightarrow> Session_deactivate (oid s) #
                    map (Buffer_edit (session_bufnr s)) (edits (deactivate cls (members s))))"
  by (simp add: cancel_def getSession_def split: option.splits)

section \<open>Properties of the modelled parser\<close>

lemma scan_until_length: "scan_until esc d s = Some (t, r) \<Longrightarrow> length r < length s"
  by (induction esc d s arbitrary: t r rule: scan_until.induct)
    (fastforce split: if_splits option.splits)+

lemma scan_until_delim: "scan_until esc d s = Some (t, r) \<Longrightarrow> d \<in> set s"
  by (induction esc d s arbitrary: t r rule: scan_until.induct)
    (fastforce split: if_splits option.splits)+

lemma scan_choices_length: "scan_choices cur s = Some (cs, r) \<Longrightarrow> length r < length s"
  by (induction cur s arbitrary: cs r rule: scan_choices.induct)
    (fastforce split: if_splits option.splits)+

lemma scan_head_length: "scan_head s = Some (h, r) \<Longrightarrow> length r \<le> length s"
  by (auto simp: scan_head_def length_dropWhile_le le_SucI split: if_splits list.splits)

lemma scan_head_set: "scan_head s = Some (h, r) \<Longrightarrow> set r \<subseteq> set s"
  by (auto simp: scan_head_def split: if_splits list.splits dest: set_dropWhileD)

lemma scan_until_set: "scan_until esc d s = Some (t, r) \<Longrightarrow> set r \<subseteq> set s"
  by (induction esc d s arbitrary: t r rule: scan_until.induct)
    (fastforce split: if_splits option.splits)+

lemma scan_choices_set: "scan_choices cur s = Some (cs, r) \<Longrightarrow> set r \<subseteq> set s"
  by (induction cur s arbitrary: cs r rule: scan_choices.induct)
    (fastforce split: if_splits option.splits)+

lemma scan_transform_rest:
  assumes "scan_transform s = Some (t, r)"
  shows "length r < length s" "CHR ''}'' \<in> set s"
proof -
  from assms obtain re s1 fmt s2 fl where
    1: "scan_until [CHR ''/'', backslash] (CHR ''/'') s = Some (re, s1)" and
    2: "scan_until [CHR ''/'', backslash] (CHR ''/'') s1 = Some (fmt, s2)" and
    3: "scan_until [] (CHR ''}'') s2 = Some (fl, r)"
    by (auto simp: scan_transform_def split: option.splits)
  show "length r < length s"
    using scan_until_length [OF 1] scan_until_length [OF 2] scan_until_length [OF 3] by simp
  have "CHR ''}'' \<in> set s2" using 3 by (rule scan_until_delim)
  then show "CHR ''}'' \<in> set s"
    using scan_until_set [OF 1] scan_until_set [OF 2] by blast
qed

lemma braced_flat_length:
  assumes "braced_flat s = Some (m, r)"
  shows "length r < length s"
  using assms
  by (auto simp: braced_flat_def split: list.splits option.splits if_splits head.splits
      dest!: scan_head_length scan_transform_rest(1) scan_choices_length)

lemma braced_flat_brace:
  assumes "braced_flat s = Some (m, r)"
  shows "CHR ''}'' \<in> set s"
proof -
  from assms obtain s0 h s1 d s2 where
    s: "s = CHR ''{'' # s0" and h: "scan_head s0 = Some (h, s1)" and s1: "s1 = d # s2"
    by (auto simp: braced_flat_def split: list.splits option.splits if_splits)
  have sub: "set s1 \<subseteq> set s" using scan_head_set [OF h] s by auto
  consider (close) "d = CHR ''}''"
    | (tr) t where "scan_transform s2 = Some (t, r)"
    | (ch) cs s4 where "scan_choices [] s2 = Some (cs, CHR ''}'' # s4)"
    using assms s h s1
    by (auto simp: braced_flat_def split: list.splits option.splits if_splits head.splits)
  then show ?thesis
  proof cases
    case close
    then show ?thesis using sub s1 by auto
  next
    case tr
    then show ?thesis using scan_transform_rest(2) sub s1 by fastforce
  next
    case ch
    then show ?thesis using scan_choices_set [OF ch] sub s1 by auto
  qed
qed

lemma children_head_length:
  assumes "children_head s = Some (h, r)"
  shows "length r < length s"
  using assms
  by (auto simp: children_head_def split: list.splits option.splits if_splits
      dest!: scan_head_length)

lemma children_head_set:
  assumes "children_head s = Some (h, r)"
  shows "set r \<subseteq> set s"
  using assms
  by (auto simp: children_head_def split: list.splits option.splits if_splits
      dest!: scan_head_set)

lemma bare_length:
  assumes "bare s = Some (m, r)"
  shows "length r \<le> length s"
  using assms by (auto simp: bare_def split: option.splits dest: scan_head_length)

lemma followed_by_Some:
  "followed_by f p = Some (ms, r, c) \<longleftrightarrow> (\<exists>ms'. p = Some (ms', r, c) \<and> ms = f ms')"
  by (auto simp: followed_by_def split: option.splits)

lemma followed_by_None [simp]: "followed_by f p = None \<longleftrightarrow> p = None"
  by (auto simp: followed_by_def split: option.splits)

lemma bare_set:
  assumes "bare s = Some (m, r)"
  shows "set r \<subseteq> set s"
  using assms by (auto simp: bare_def split: option.splits dest: scan_head_set)

lemma parse_markers_step:
  assumes "parse_markers (Suc n) nested (c # s) = Some (ms, r, closed)"
  obtains (close) "r = s" "closed" "c = CHR ''}''"
    | (tail) f s' where "length s' \<le> length s"
        "CHR ''}'' \<in> set s' \<longrightarrow> CHR ''}'' \<in> set s"
        "followed_by f (parse_markers n nested s') = Some (ms, r, closed)"
    | (children) h s1 cs s2 f where "children_head s = Some (h, s1)"
        "parse_markers n True s1 = Some (cs, s2, True)"
        "followed_by f (parse_markers n nested s2) = Some (ms, r, closed)"
    | (degrade) "r = []" "\<not> closed"
proof (cases "c = CHR ''}'' \<and> nested")
  case True
  then show ?thesis using assms close by simp
next
  case not_close: False
  show ?thesis
  proof (cases "c = backslash")
    case True
    then show ?thesis
      using assms not_close tail [of s] tail [of "tl s"]
      by (auto split: list.splits if_splits)
  next
    case not_esc: False
    show ?thesis
    proof (cases "c = CHR ''$''")
      case False
      then show ?thesis
        using assms not_close not_esc tail [of s] by auto
    next
      case dollar: True
      show ?thesis
      proof (cases "braced_flat s")
        case (Some a)
        then obtain m s' where a: "braced_flat s = Some (m, s')" by (cases a) auto
        have "followed_by ((#) m) (parse_markers n nested s') = Some (ms, r, closed)"
          using assms not_close not_esc dollar a by simp
        then show ?thesis
          using tail [of s' "(#) m"] braced_flat_length [OF a] braced_flat_brace [OF a]
          by simp
      next
        case no_flat: None
        show ?thesis
        proof (cases "children_head s")
          case (Some a)
          then obtain h s1 where a: "children_head s = Some (h, s1)" by (cases a) auto
          from assms not_close not_esc dollar no_flat a
          obtain cs s2 cl where p: "parse_markers n True s1 = Some (cs, s2, cl)"
            by (auto split: option.splits)
          show ?thesis
          proof (cases cl)
            case True
            then show ?thesis
              using assms not_close not_esc dollar no_flat a p children [OF a]
              by simp
          next
            case False
            then show ?thesis
              using assms not_close not_esc dollar no_flat a p degrade
              by simp
          qed
        next
          case no_children: None
          show ?thesis
          proof (cases "take 1 s = ''{'' \<and> CHR ''}'' \<notin> set s")
            case True
            then show ?thesis
              using assms not_close not_esc dollar no_flat no_children degrade by simp
          next
            case False
            show ?thesis
            proof (cases "bare s")
              case None
              then show ?thesis
                using assms not_close not_esc dollar no_flat no_children False tail [of s]
                by (auto split: if_splits)
            next
              case (Some a)
              then obtain m s' where a: "bare s = Some (m, s')" by (cases a) auto
              then show ?thesis
                using assms not_close not_esc dollar no_flat no_children False
                  tail [of s' "(#) m"] bare_length [OF a] bare_set [OF a]
                by (auto split: if_splits)
            qed
          qed
        qed
      qed
    qed
  qed
qed

lemma parse_markers_rest:
  "parse_markers n nested s = Some (ms, r, closed) \<Longrightarrow>
     length r \<le> length s \<and> (closed \<longrightarrow> CHR ''}'' \<in> set s)"
proof (induction n arbitrary: nested s ms r closed)
  case 0
  then show ?case by simp
next
  case (Suc n)
  show ?case
  proof (cases s)
    case Nil
    then show ?thesis using Suc.prems by simp
  next
    case (Cons c s')
    from Suc.prems [unfolded Cons] show ?thesis
    proof (cases rule: parse_markers_step)
      case close
      then show ?thesis using Cons by simp
    next
      case (tail f t)
      from tail(3) obtain ms' where "parse_markers n nested t = Some (ms', r, closed)"
        by (auto simp: followed_by_Some)
      from Suc.IH [OF this] tail(1,2) show ?thesis using Cons by auto
    next
      case (children h s1 cs s2 f)
      from children(3) obtain ms' where "parse_markers n nested s2 = Some (ms', r, closed)"
        by (auto simp: followed_by_Some)
      from Suc.IH [OF this] Suc.IH [OF children(2)]
        children_head_length [OF children(1)] children_head_set [OF children(1)]
      show ?thesis using Cons by auto
    next
      case degrade
      then show ?thesis by simp
    qed
  qed
qed


lemma parse_markers_stuck:
  assumes "parse_markers (Suc n) nested (c # s) = None"
  obtains (tail) s' where "length s' \<le> length s" "parse_markers n nested s' = None"
    | (kids) h s1 where "children_head s = Some (h, s1)" "parse_markers n True s1 = None"
    | (rest) h s1 cs s2 where "children_head s = Some (h, s1)"
        "parse_markers n True s1 = Some (cs, s2, True)" "parse_markers n nested s2 = None"
proof (cases "c = CHR ''}'' \<and> nested")
  case True
  then show ?thesis using assms by simp
next
  case not_close: False
  show ?thesis
  proof (cases "c = backslash")
    case True
    then show ?thesis
      using assms not_close tail [of s] tail [of "tl s"]
      by (auto split: list.splits if_splits)
  next
    case not_esc: False
    show ?thesis
    proof (cases "c = CHR ''$''")
      case False
      then show ?thesis
        using assms not_close not_esc tail [of s] by auto
    next
      case dollar: True
      show ?thesis
      proof (cases "braced_flat s")
        case (Some a)
        then obtain m s' where a: "braced_flat s = Some (m, s')" by (cases a) auto
        have "parse_markers n nested s' = None"
          using assms not_close not_esc dollar a by simp
        then show ?thesis
          using tail [of s'] braced_flat_length [OF a] by simp
      next
        case no_flat: None
        show ?thesis
        proof (cases "children_head s")
          case (Some a)
          then obtain h s1 where a: "children_head s = Some (h, s1)" by (cases a) auto
          show ?thesis
          proof (cases "parse_markers n True s1")
            case None
            then show ?thesis using kids [OF a] by simp
          next
            case (Some p)
            then obtain cs s2 cl where p: "parse_markers n True s1 = Some (cs, s2, cl)"
              by (cases p) auto
            show ?thesis
            proof (cases cl)
              case True
              then show ?thesis
                using assms not_close not_esc dollar no_flat a p rest [OF a, of cs s2]
                by simp
            next
              case False
              then show ?thesis
                using assms not_close not_esc dollar no_flat a p by simp
            qed
          qed
        next
          case no_children: None
          show ?thesis
          proof (cases "bare s")
            case None
            then show ?thesis
              using assms not_close not_esc dollar no_flat no_children tail [of s]
              by (auto split: if_splits)
          next
            case (Some a)
            then obtain m s' where a: "bare s = Some (m, s')" by (cases a) auto
            then show ?thesis
              using assms not_close not_esc dollar no_flat no_children
                tail [of s'] bare_length [OF a]
              by (auto split: if_splits)
          qed
        qed
      qed
    qed
  qed
qed

lemma parse_markers_fuel:
  "length s < n \<Longrightarrow> parse_markers n nested s \<noteq> None"
proof (induction n arbitrary: nested s)
  case 0
  then show ?case by simp
next
  case (Suc n)
  show ?case
  proof (cases s)
    case Nil
    then show ?thesis by simp
  next
    case (Cons c s')
    have len: "length s' < n" using Suc.prems Cons by simp
    show ?thesis
    proof
      assume "parse_markers (Suc n) nested s = None"
      then have "parse_markers (Suc n) nested (c # s') = None" by (simp add: Cons)
      then show False
      proof (cases rule: parse_markers_stuck)
        case (tail t)
        then show ?thesis using Suc.IH [of t nested] len by simp
      next
        case (kids h s1)
        then show ?thesis
          using Suc.IH [of s1 True] len children_head_length [OF kids(1)] by simp
      next
        case (rest h s1 cs s2)
        then show ?thesis
          using Suc.IH [of s2 nested] len children_head_length [OF rest(1)]
            parse_markers_rest [OF rest(2)]
          by simp
      qed
    qed
  qed
qed

lemma parse_markers_plain:
  "CHR ''$'' \<notin> set s \<Longrightarrow> backslash \<notin> set s \<Longrightarrow> length s < n \<Longrightarrow>
     parse_markers n False s = Some (if s = [] then [] else [Text s], [], False)"
proof (induction s arbitrary: n)
  case Nil
  then show ?case by (cases n) auto
next
  case (Cons c s)
  then obtain m where n: "n = Suc m" by (cases n) auto
  have "parse_markers m False s = Some (if s = [] then [] else [Text s], [], False)"
    using Cons n by auto
  then show ?case
    using Cons.prems n by (auto simp: followed_by_def)
qed

lemma parse_markers_unterminated:
  assumes open_brace: "CHR ''}'' \<notin> set s" and fuel: "Suc (length s) < n"
  shows "parse_markers (Suc n) nested (CHR ''$'' # CHR ''{'' # s) =
           Some ([Text (CHR ''$'' # CHR ''{'' # s)], [], False)"
proof -
  have no_flat: "braced_flat (CHR ''{'' # s) = None"
  proof (cases "braced_flat (CHR ''{'' # s)")
    case (Some a)
    then show ?thesis using braced_flat_brace [of "CHR ''{'' # s" "fst a" "snd a"] open_brace
      by simp
  qed simp
  show ?thesis
  proof (cases "children_head (CHR ''{'' # s)")
    case None
    then show ?thesis using no_flat open_brace by (simp add: backslash_def)
  next
    case (Some a)
    then obtain h s1 where a: "children_head (CHR ''{'' # s) = Some (h, s1)" by (cases a) auto
    have "length s1 < n" using children_head_length [OF a] fuel by simp
    then obtain cs s2 cl where p: "parse_markers n True s1 = Some (cs, s2, cl)"
      using parse_markers_fuel [of s1 n True] by auto
    have "\<not> cl"
      using parse_markers_rest [OF p] children_head_set [OF a] open_brace by auto
    then show ?thesis using no_flat a p by (simp add: backslash_def)
  qed
qed

lemma parse_markers_enough:
  "length s < n \<Longrightarrow> length s < m \<Longrightarrow> parse_markers n nested s = parse_markers m nested s"
proof (induction n arbitrary: m nested s)
  case 0
  then show ?case by simp
next
  case (Suc n)
  from Suc.prems obtain m' where m: "m = Suc m'" by (cases m) auto
  show ?case
  proof (cases s)
    case Nil
    then show ?thesis by (simp add: m)
  next
    case (Cons c s')
    have IH: "parse_markers n x t = parse_markers m' x t" if "length t \<le> length s'" for x t
      using Suc.IH [of t m' x] that Suc.prems Cons m by simp
    have A: "parse_markers n nested s' = parse_markers m' nested s'"
      by (rule IH) simp
    have B: "parse_markers n nested (tl s') = parse_markers m' nested (tl s')"
      by (rule IH) simp
    have C: "parse_markers n nested t = parse_markers m' nested t"
      if "braced_flat s' = Some (m0, t)" for m0 t
      using braced_flat_length [OF that] by (intro IH) simp
    have D: "parse_markers n True s1 = parse_markers m' True s1"
      if "children_head s' = Some (h, s1)" for h s1
      using children_head_length [OF that] by (intro IH) simp
    have E: "parse_markers n nested s2 = parse_markers m' nested s2"
      if "children_head s' = Some (h, s1)" "parse_markers m' True s1 = Some (cs, s2, cl)"
      for h s1 cs s2 cl
      using children_head_length [OF that(1)] parse_markers_rest [OF that(2)]
      by (intro IH) simp
    have F: "parse_markers n nested t = parse_markers m' nested t"
      if "bare s' = Some (m0, t)" for m0 t
      using bare_length [OF that] by (intro IH) simp
    show ?thesis
    proof (cases "c = CHR ''}'' \<and> nested")
      case True
      then show ?thesis by (simp add: Cons m)
    next
      case not_close: False
      show ?thesis
      proof (cases "c = backslash")
        case True
        then show ?thesis
          using not_close A B by (cases s') (auto simp: Cons m backslash_def)
      next
        case not_esc: False
        show ?thesis
        proof (cases "c = CHR ''$''")
          case False
          then show ?thesis using not_close not_esc A by (auto simp: Cons m backslash_def)
        next
          case dollar: True
          show ?thesis
          proof (cases "braced_flat s'")
            case (Some a)
            then obtain m0 t where a: "braced_flat s' = Some (m0, t)" by (cases a) auto
            show ?thesis using not_close not_esc dollar a C [OF a] by (auto simp: Cons m backslash_def)
          next
            case no_flat: None
            show ?thesis
            proof (cases "children_head s'")
              case (Some a)
              then obtain h s1 where a: "children_head s' = Some (h, s1)" by (cases a) auto
              show ?thesis
              proof (cases "parse_markers m' True s1")
                case None
                then show ?thesis
                  using not_close not_esc dollar no_flat a D [OF a] by (auto simp: Cons m backslash_def)
              next
                case (Some p)
                then obtain cs s2 cl where p: "parse_markers m' True s1 = Some (cs, s2, cl)"
                  by (cases p) auto
                show ?thesis
                  using not_close not_esc dollar no_flat a D [OF a] p E [OF a p]
                  by (auto simp: Cons m backslash_def)
              qed
            next
              case no_children: None
              show ?thesis
              proof (cases "bare s'")
                case None
                then show ?thesis
                  using not_close not_esc dollar no_flat no_children A by (auto simp: Cons m backslash_def)
              next
                case (Some a)
                then obtain m0 t where a: "bare s' = Some (m0, t)" by (cases a) auto
                show ?thesis
                  using not_close not_esc dollar no_flat no_children a F [OF a]
                  by (auto simp: Cons m backslash_def)
              qed
            qed
          qed
        qed
      qed
    qed
  qed
qed

lemma parse_markers_literal_head:
  assumes "literal_head nested (c # r)"
  shows "parse_markers (Suc n) nested (c # r) =
           followed_by (add_text [c]) (parse_markers n nested r)"
proof (cases "c = backslash")
  case True
  then show ?thesis
    using assms by (cases r) (auto simp: literal_head_def backslash_def)
next
  case not_esc: False
  show ?thesis
  proof (cases "c = CHR ''$''")
    case True
    then show ?thesis
      using assms not_esc by (auto simp: literal_head_def)
  next
    case False
    then show ?thesis
      using assms not_esc by (auto simp: literal_head_def)
  qed
qed

lemma add_text_add_text: "a \<noteq> [] \<Longrightarrow> add_text [c] (add_text a ms) = add_text (c # a) ms"
  by (cases "(a, ms)" rule: add_text.cases) simp_all

lemma followed_by_followed_by:
  "followed_by f (followed_by g p) = followed_by (f \<circ> g) p"
  by (auto simp: followed_by_def split: option.splits)

lemma parse_markers_literal_span:
  assumes "a \<noteq> []" "literal_span nested a b"
  shows "parse_markers (length a + n) nested (a @ b) =
           followed_by (add_text a) (parse_markers n nested b)"
  using assms
proof (induction a)
  case Nil
  then show ?case by simp
next
  case (Cons c a)
  have head: "literal_head nested (c # a @ b)" and rest: "literal_span nested a b"
    using Cons.prems by simp_all
  have step: "parse_markers (Suc (length a + n)) nested (c # a @ b) =
      followed_by (add_text [c]) (parse_markers (length a + n) nested (a @ b))"
    using head by (rule parse_markers_literal_head)
  show ?case
  proof (cases "a = []")
    case True
    then show ?thesis using step by simp
  next
    case False
    have "add_text [c] \<circ> add_text a = add_text (c # a)"
      using False by (auto simp: add_text_add_text)
    then show ?thesis
      using step Cons.IH [OF False rest] by (simp add: followed_by_followed_by)
  qed
qed

lemma parse_markers_unterminated_form:
  assumes un: "unterminated s" and fuel: "length s < n"
  shows "parse_markers n nested s = Some ([Text s], [], False)"
proof -
  from un obtain r where s: "s = CHR ''$'' # r" and no_flat: "braced_flat r = None"
    by (auto simp: unterminated_def split: list.splits)
  from fuel s obtain n' where n: "n = Suc n'" and len: "length r < n'"
    by (cases n) auto
  show ?thesis
  proof (cases "children_head r")
    case None
    then show ?thesis
      using un s no_flat n by (auto simp: unterminated_def backslash_def)
  next
    case (Some a)
    then obtain h s1 where a: "children_head r = Some (h, s1)" by (cases a) auto
    have open_: "\<not> children_closed s1"
      using un s a by (simp add: unterminated_def)
    have l1: "length s1 < n'" using children_head_length [OF a] len by simp
    have same: "parse_markers n' True s1 = parse_markers (Suc (length s1)) True s1"
      by (rule parse_markers_enough) (simp_all add: l1)
    obtain cs s2 cl where p: "parse_markers n' True s1 = Some (cs, s2, cl)"
      using parse_markers_fuel [OF l1, of True] by auto
    have "\<not> cl" using open_ p same by (simp add: children_closed_def)
    then show ?thesis
      using s no_flat a p n by (simp add: backslash_def)
  qed
qed

lemma has_tabstop_add_text [simp]:
  "list_ex (has_tabstop i) (add_text a ms) = list_ex (has_tabstop i) ms"
  by (cases "(a, ms)" rule: add_text.cases) simp_all

lemma add_text_snoc:
  "add_text a (ms @ [Placeholder i cs ch t]) = add_text a ms @ [Placeholder i cs ch t]"
  by (cases "(a, ms)" rule: add_text.cases) simp_all

lemma parse_literal_span:
  assumes "a \<noteq> []" "literal_span False a b"
  shows "parse (a @ b) f = map_option (add_text a) (parse b f)"
proof -
  obtain ms r cl where p: "parse_markers (Suc (length b)) False b = Some (ms, r, cl)"
    using parse_markers_fuel [of b "Suc (length b)" False] by auto
  have "parse_markers (Suc (length (a @ b))) False (a @ b) = Some (add_text a ms, r, cl)"
    using parse_markers_literal_span [OF assms, of "Suc (length b)"] p
    by (simp add: followed_by_def)
  then show ?thesis
    using p by (simp add: parse_def add_text_snoc)
qed

lemma parse_unterminated:
  assumes "unterminated s"
  shows "parse s f = Some (Text s # (if f then [Placeholder 0 [] None None] else []))"
  using parse_markers_unterminated_form [OF assms, of "Suc (length s)" False]
  by (simp add: parse_def)

lemma literal_head_stray:
  assumes "case r of [] \<Rightarrow> True
           | d # r' \<Rightarrow> \<not> is_digit d \<and> \<not> is_name_start d \<and> d \<noteq> CHR ''{''"
  shows "literal_head nested (CHR ''$'' # r)"
  using assms
  by (cases r)
    (auto simp: literal_head_def backslash_def braced_flat_def children_head_def bare_def
      scan_head_def)

lemma literal_head_malformed:
  assumes "braced_flat r = None" "children_head r = None" "take 1 r = ''{''" "CHR ''}'' \<in> set r"
  shows "literal_head nested (CHR ''$'' # r)"
proof -
  from assms(3) obtain r' where "r = CHR ''{'' # r'" by (cases r) auto
  then have "bare r = None"
    by (simp add: bare_def scan_head_def is_digit_def is_name_start_def)
  then show ?thesis using assms by (simp add: literal_head_def backslash_def)
qed

lemma literal_head_escape:
  assumes "case r of [] \<Rightarrow> True | e # r' \<Rightarrow> e \<notin> {CHR ''$'', CHR ''}'', backslash}"
  shows "literal_head False (backslash # r)"
  using assms by (cases r) (auto simp: literal_head_def backslash_def)

lemma parse_final_tabstop:
  "parse template True = Some ms \<Longrightarrow> list_ex (has_tabstop 0) ms"
  by (auto simp: parse_def split: option.splits if_splits)

lemma parse_returns: "\<exists>snippet. parse template insertFinalTabstop = Some snippet"
proof -
  obtain ms rest closed where
    "parse_markers (Suc (length template)) False template = Some (ms, rest, closed)"
    using parse_markers_fuel [of template "Suc (length template)" False] by auto
  then show ?thesis by (simp add: parse_def)
qed

section \<open>Properties of the modelled session\<close>

lemma dropWhile_distinct_nth:
  "distinct xs \<Longrightarrow> k < length xs \<Longrightarrow> dropWhile (\<lambda>j. j \<noteq> xs ! k) xs = drop k xs"
proof (induction xs arbitrary: k)
  case Nil
  then show ?case by simp
next
  case (Cons x xs)
  show ?case
  proof (cases k)
    case 0
    then show ?thesis by simp
  next
    case (Suc m)
    then have "xs ! m \<in> set xs" using Cons.prems by simp
    then have "x \<noteq> xs ! m" using Cons.prems by auto
    then show ?thesis using Cons Suc by simp
  qed
qed

lemma successor_nth:
  assumes "distinct order" "Suc k < length order"
  shows "successor (order ! k) order = Some (order ! Suc k)"
proof -
  have "dropWhile (\<lambda>j. j \<noteq> order ! k) order = drop k order"
    using assms by (simp add: dropWhile_distinct_nth)
  also have "\<dots> = order ! k # order ! Suc k # drop (Suc (Suc k)) order"
    using assms by (simp add: Cons_nth_drop_Suc)
  finally show ?thesis by (simp add: successor_def)
qed

lemma successor_last:
  assumes "distinct order" "Suc k = length order"
  shows "successor (order ! k) order = None"
proof -
  have "dropWhile (\<lambda>j. j \<noteq> order ! k) order = drop k order"
    using assms by (simp add: dropWhile_distinct_nth)
  also have "\<dots> = [order ! k]"
    using assms by (metis Cons_nth_drop_Suc drop_all lessI order_refl)
  finally show ?thesis by (simp add: successor_def)
qed

lemma takeWhile_distinct_nth:
  "distinct xs \<Longrightarrow> k < length xs \<Longrightarrow> takeWhile (\<lambda>j. j \<noteq> xs ! k) xs = take k xs"
proof (induction xs arbitrary: k)
  case Nil
  then show ?case by simp
next
  case (Cons x xs)
  show ?case
  proof (cases k)
    case 0
    then show ?thesis by simp
  next
    case (Suc m)
    then have "xs ! m \<in> set xs" using Cons.prems by simp
    then have "x \<noteq> xs ! m" using Cons.prems by auto
    then show ?thesis using Cons Suc by simp
  qed
qed

lemma predecessor_nth:
  assumes "distinct order" "Suc k < length order"
  shows "predecessor (order ! Suc k) order = Some (order ! k)"
proof -
  have t: "takeWhile (\<lambda>j. j \<noteq> order ! Suc k) order = take (Suc k) order"
    using assms by (simp add: takeWhile_distinct_nth)
  have "take (Suc k) order = take k order @ [order ! k]"
    using assms by (simp add: take_Suc_conv_app_nth)
  moreover have "(case xs @ [x] of [] \<Rightarrow> None | j # rest \<Rightarrow> Some (last (j # rest))) = Some x"
    for xs :: "nat list" and x
    by (cases xs) simp_all
  ultimately show ?thesis
    using t by (simp add: predecessor_def)
qed

lemma predecessor_hd: "order \<noteq> [] \<Longrightarrow> predecessor (hd order) order = None"
  by (cases order) (simp_all add: predecessor_def)

lemma navigation_order_props:
  "distinct (navigation_order ms)"
  "sorted (butlast (navigation_order ms))"
  "last (navigation_order ms) = 0"
  "0 \<notin> set (butlast (navigation_order ms))"
  "navigation_order ms \<noteq> []"
  by (simp_all add: navigation_order_def)


lemma start_session_active:
  assumes "start_session tf resolver buf template selectOnInsert position = Some (True, s0, rs)"
  shows "navigation s0 = navigation_order (markers s0)"
    and "active s0 = Some (hd (navigation s0))"
  using assms by (auto simp: start_session_def split: option.splits if_splits)

lemma next_placeholder_step:
  assumes nav: "navigation s = navigation_order ms"
    and act: "active s = Some (navigation_order ms ! k)"
    and k: "Suc k < length (navigation_order ms)"
  shows "next_placeholder tf s =
           (if Suc (Suc k) = length (navigation_order ms)
            then (s\<lparr>active := None\<rparr>, place tf True 0 (markers s))
            else (s\<lparr>active := Some (navigation_order ms ! Suc k)\<rparr>,
                  place tf True (navigation_order ms ! Suc k) (markers s)))"
proof -
  let ?order = "navigation_order ms"
  have succ: "successor (?order ! k) ?order = Some (?order ! Suc k)"
    using k by (simp add: successor_nth navigation_order_props(1))
  have zero: "?order ! Suc k = 0 \<longleftrightarrow> Suc (Suc k) = length ?order"
  proof
    assume "Suc (Suc k) = length ?order"
    then have "length ?order - 1 = Suc k" by simp
    then have "?order ! Suc k = last ?order"
      using navigation_order_props(5) [of ms] by (simp add: last_conv_nth)
    then show "?order ! Suc k = 0" by (simp add: navigation_order_props(3))
  next
    assume z: "?order ! Suc k = 0"
    show "Suc (Suc k) = length ?order"
    proof (rule ccontr)
      assume "Suc (Suc k) \<noteq> length ?order"
      then have "Suc k < length (butlast ?order)" using k by simp
      then have "butlast ?order ! Suc k \<in> set (butlast ?order)" by simp
      moreover have "butlast ?order ! Suc k = ?order ! Suc k"
        using \<open>Suc k < length (butlast ?order)\<close> by (simp add: nth_butlast)
      ultimately show False using z navigation_order_props(4) [of ms] by simp
    qed
  qed
  show ?thesis
    using succ zero nav act by (simp add: next_placeholder_def)
qed

lemma nexts_active:
  assumes nav: "navigation s0 = navigation_order ms"
    and act: "active s0 = Some (hd (navigation_order ms))"
    and k: "Suc k < length (navigation_order ms)"
  shows "((\<lambda>s. fst (next_placeholder tf s)) ^^ k) s0 = s0\<lparr>active := Some (navigation_order ms ! k)\<rparr>"
  using k
proof (induction k)
  case 0
  then show ?case
    using act navigation_order_props(5) [of ms] by (simp add: hd_conv_nth)
next
  case (Suc k)
  let ?s = "s0\<lparr>active := Some (navigation_order ms ! k)\<rparr>"
  have prev: "((\<lambda>s. fst (next_placeholder tf s)) ^^ k) s0 = ?s"
    using Suc by simp
  have "next_placeholder tf ?s =
          (?s\<lparr>active := Some (navigation_order ms ! Suc k)\<rparr>,
           place tf True (navigation_order ms ! Suc k) (markers ?s))"
    using next_placeholder_step [of ?s ms k tf] nav Suc.prems by simp
  then show ?case using prev by simp
qed

lemma previous_placeholder_step:
  assumes nav: "navigation s = navigation_order ms"
    and act: "active s = Some (navigation_order ms ! Suc k)"
    and k: "Suc k < length (navigation_order ms)"
  shows "previous_placeholder tf s =
           (s\<lparr>active := Some (navigation_order ms ! k)\<rparr>,
            place tf True (navigation_order ms ! k) (markers s))"
  using assms predecessor_nth [OF navigation_order_props(1) k]
  by (simp add: previous_placeholder_def)

lemma start_session_example:
  "start_session (\<lambda>T v. v) (\<lambda>name. None) 1 ''$2 $1 $0'' True 0 =
     Some (True,
           \<lparr>buffer = 1,
            markers = [Placeholder 2 [] None None, Text '' '', Placeholder 1 [] None None,
                       Text '' '', Placeholder 0 [] None None],
            active = Some 1, navigation = [1, 2, 0]\<rparr>,
           [InsertText 0 ''  '', SetSelection (1, 1)])"
  by code_simp











lemma has_tabstop_resolve_marker:
  "has_tabstop i (resolve_marker resolver m) = has_tabstop i m"
  by (induction resolver m rule: resolve_marker.induct)
    (auto simp: list_ex_iff split: option.splits)

lemma has_tabstop_resolveVariables:
  "list_ex (has_tabstop i) (resolveVariables resolver ms) = list_ex (has_tabstop i) ms"
  by (simp add: resolveVariables_def list_ex_iff has_tabstop_resolve_marker)

section \<open>The claims\<close>

text \<open>
  C1, as amended. The registry is a map from buffer numbers, so a buffer has at most one
  session; the registry invariant adds that no session is registered for two buffers,
  and it holds in every state the manager goes through: in the one it is constructed
  in, and after every handler and every method. When the buffer already has a session,
  \<^verbatim>\<open>insertSnippet\<close> constructs no session: it calls \<^verbatim>\<open>start\<close> on the registered one, and
  afterwards the buffer has no entry exactly when the session emitted its cancel event
  and \<^verbatim>\<open>start\<close> answered false; otherwise its entry is that same session with the members
  \<^verbatim>\<open>start\<close> left it. The entries of the other buffers are as before. What \<^verbatim>\<open>start\<close> does with
  the previous snippet is the session's affair.
\<close>

theorem insertSnippet_reuses_session:
  "(reachable cls md this \<longrightarrow> registry_ok this) \<and>
   (registry_ok this \<and> sessionMap this (nvim_bufnr ws) = Some session \<longrightarrow>
      registry_ok (snd (insertSnippet cls ws snippet select position this)) \<and>
      constructed (snd (insertSnippet cls ws snippet select position this)) = constructed this \<and>
      sessionMap (snd (insertSnippet cls ws snippet select position this)) (nvim_bufnr ws) =
        (if cancelled (start cls snippet select position (members session)) \<and>
            \<not> returned (start cls snippet select position (members session))
         then None
         else Some (session\<lparr>members :=
                      after (start cls snippet select position (members session))\<rparr>)) \<and>
      (\<forall>k. k \<noteq> nvim_bufnr ws \<longrightarrow>
         sessionMap (snd (insertSnippet cls ws snippet select position this)) k =
           sessionMap this k) \<and>
      calls (snd (insertSnippet cls ws snippet select position this)) =
        calls this @ Session_start (oid session) snippet select position #
          map (Buffer_edit (nvim_bufnr ws))
            (edits (start cls snippet select position (members session))))"
proof -
  let ?this' = "snd (insertSnippet cls ws snippet select position this)"
  let ?out = "start cls snippet select position (members session)"
  have inv: "registry_ok this" if "reachable cls md this"
    using that by (rule reachable_registry_ok)
  have reuse: "registry_ok ?this' \<and> constructed ?this' = constructed this \<and>
      sessionMap ?this' (nvim_bufnr ws) =
        (if cancelled ?out \<and> \<not> returned ?out then None
         else Some (session\<lparr>members := after ?out\<rparr>)) \<and>
      (\<forall>k. k \<noteq> nvim_bufnr ws \<longrightarrow> sessionMap ?this' k = sessionMap this k) \<and>
      calls ?this' =
        calls this @ Session_start (oid session) snippet select position #
          map (Buffer_edit (nvim_bufnr ws)) (edits ?out)"
    if ok: "registry_ok this" and reg: "sessionMap this (nvim_bufnr ws) = Some session"
  proof -
    note r = registry_okD [OF ok reg]
    have "registry_ok ?this'"
      by (rule registry_ok_insertSnippet [OF ok])
    moreover have "constructed ?this' = constructed this"
      using reg by (simp add: insertSnippet_constructed)
    moreover have "sessionMap ?this' (nvim_bufnr ws) =
        (if cancelled ?out \<and> \<not> returned ?out then None
         else Some (session\<lparr>members := after ?out\<rparr>))"
      by (simp add: insertSnippet_sessionMap_registered [OF reg r(2)])
    moreover have "sessionMap ?this' k = sessionMap this k" if "k \<noteq> nvim_bufnr ws" for k
      using that by (simp add: insertSnippet_sessionMap_registered [OF reg r(2)])
    moreover have "calls ?this' =
        calls this @ Session_start (oid session) snippet select position #
          map (Buffer_edit (nvim_bufnr ws)) (edits ?out)"
      using reg r(1) by (simp add: insertSnippet_calls)
    ultimately show ?thesis by blast
  qed
  show ?thesis using inv reuse by blast
qed

text \<open>
  A manager whose status item has been created and that has inserted a snippet in buffer
  1: the state is one the manager goes through, and buffer 1 has the session with
  identity 0. A second \<^verbatim>\<open>insertSnippet\<close> in buffer 1 leaves that session registered; with
  a session whose \<^verbatim>\<open>start\<close> emits the cancel event and answers false, it leaves buffer 1
  without a session.
\<close>

theorem insertSnippet_reuses_session_witness:
  "reachable flag_class
     \<lparr>parser_parse = (\<lambda>body insertFinalTabstop. body), new_resolver = (),
      snippet_resolveVariables = (\<lambda>resolver snippet. snippet)\<rparr>
     \<lparr>sessionMap = [1 \<mapsto> \<lparr>oid = 0, session_bufnr = 1, onCancel = [1], members = True\<rparr>],
      statusItem = Some True, constructed = 1,
      calls = [Session_start 0 ''for ($1) {$0}'' True None]\<rparr> \<and>
   registry_ok
     \<lparr>sessionMap = [1 \<mapsto> \<lparr>oid = 0, session_bufnr = 1, onCancel = [1], members = True\<rparr>],
      statusItem = Some True, constructed = 1,
      calls = [Session_start 0 ''for ($1) {$0}'' True None]\<rparr> \<and>
   sessionMap (snd (insertSnippet flag_class
     \<lparr>workspace_bufnr = 1, nvim_bufnr = 1, getDocument = (\<lambda>uri. None)\<rparr> ''if ($1) {$0}'' True None
     \<lparr>sessionMap = [1 \<mapsto> \<lparr>oid = 0, session_bufnr = 1, onCancel = [1], members = True\<rparr>],
      statusItem = Some True, constructed = 1,
      calls = [Session_start 0 ''for ($1) {$0}'' True None]\<rparr>)) 1 =
     Some \<lparr>oid = 0, session_bufnr = 1, onCancel = [1], members = True\<rparr> \<and>
   sessionMap (snd (insertSnippet
     (flag_class\<lparr>start := (\<lambda>snippet select position s.
        \<lparr>returned = False, cancelled = True, edits = [], after = False\<rparr>)\<rparr>)
     \<lparr>workspace_bufnr = 1, nvim_bufnr = 1, getDocument = (\<lambda>uri. None)\<rparr> ''if ($1) {$0}'' True None
     \<lparr>sessionMap = [1 \<mapsto> \<lparr>oid = 0, session_bufnr = 1, onCancel = [1], members = True\<rparr>],
      statusItem = Some True, constructed = 1,
      calls = [Session_start 0 ''for ($1) {$0}'' True None]\<rparr>)) 1 = None"
proof -
  let ?md = "\<lparr>parser_parse = (\<lambda>body insertFinalTabstop. body), new_resolver = (),
      snippet_resolveVariables = (\<lambda>resolver snippet. snippet)\<rparr>"
  let ?ws = "\<lparr>workspace_bufnr = 1, nvim_bufnr = 1, getDocument = (\<lambda>uri. None)\<rparr>"
  let ?st = "\<lparr>sessionMap = [1 \<mapsto> \<lparr>oid = 0, session_bufnr = 1, onCancel = [1], members = True\<rparr>],
      statusItem = Some True, constructed = 1,
      calls = [Session_start 0 ''for ($1) {$0}'' True None]\<rparr>"
  have "snd (insertSnippet flag_class ?ws ''for ($1) {$0}'' True None
          (new_manager\<lparr>statusItem := Some False\<rparr>)) = ?st"
    by (simp add: insertSnippet_def getSession_def new_manager_def flag_class_def effects_def)
  then have reach: "reachable flag_class ?md ?st"
    using reachable.insert [OF reachable.ready [OF reachable.constructed],
        of flag_class ?md ?ws "''for ($1) {$0}''" True None]
    by (simp add: new_manager_def)
  have ok: "registry_ok ?st"
    using insertSnippet_reuses_session [of flag_class ?md ?st] reach by simp
  show ?thesis
    using reach ok
      insertSnippet_reuses_session [where this = "?st" and ws = "?ws" and cls = flag_class
        and snippet = "''if ($1) {$0}''" and select = True and position = None
        and session = "\<lparr>oid = 0, session_bufnr = 1, onCancel = [1], members = True\<rparr>"]
      insertSnippet_reuses_session [where this = "?st" and ws = "?ws"
        and cls = "flag_class\<lparr>start := (\<lambda>snippet select position s.
              \<lparr>returned = False, cancelled = True, edits = [], after = False\<rparr>)\<rparr>"
        and snippet = "''if ($1) {$0}''" and select = True and position = None
        and session = "\<lparr>oid = 0, session_bufnr = 1, onCancel = [1], members = True\<rparr>"]
    by (simp add: flag_class_def)
qed

text \<open>
  The claim as it stands has the prior session replaced by a new one. Here buffer 1 has
  the session with identity 0; after \<^verbatim>\<open>insertSnippet\<close> has answered true the buffer's session
  still is the one with identity 0, and the number of sessions constructed still is 1.
\<close>

theorem insertSnippet_no_new_session_counterexample:
  "map_option oid (sessionMap
     \<lparr>sessionMap = [1 \<mapsto> \<lparr>oid = 0, session_bufnr = 1, onCancel = [1], members = True\<rparr>],
      statusItem = Some True, constructed = 1, calls = []\<rparr> 1) = Some 0 \<and>
   fst (insertSnippet flag_class
     \<lparr>workspace_bufnr = 1, nvim_bufnr = 1, getDocument = (\<lambda>uri. None)\<rparr> ''for ($1) {$0}'' True None
     \<lparr>sessionMap = [1 \<mapsto> \<lparr>oid = 0, session_bufnr = 1, onCancel = [1], members = True\<rparr>],
      statusItem = Some True, constructed = 1, calls = []\<rparr>) = Inr True \<and>
   map_option oid (sessionMap (snd (insertSnippet flag_class
     \<lparr>workspace_bufnr = 1, nvim_bufnr = 1, getDocument = (\<lambda>uri. None)\<rparr> ''for ($1) {$0}'' True None
     \<lparr>sessionMap = [1 \<mapsto> \<lparr>oid = 0, session_bufnr = 1, onCancel = [1], members = True\<rparr>],
      statusItem = Some True, constructed = 1, calls = []\<rparr>)) 1) = Some 0 \<and>
   constructed (snd (insertSnippet flag_class
     \<lparr>workspace_bufnr = 1, nvim_bufnr = 1, getDocument = (\<lambda>uri. None)\<rparr> ''for ($1) {$0}'' True None
     \<lparr>sessionMap = [1 \<mapsto> \<lparr>oid = 0, session_bufnr = 1, onCancel = [1], members = True\<rparr>],
      statusItem = Some True, constructed = 1, calls = []\<rparr>)) = 1"
  by (simp add: insertSnippet_sessionMap insertSnippet_constructed insertSnippet_result
      flag_class_def)


text \<open>
  C2, on the parser modelled from the specification. For every template and either
  value of \<^verbatim>\<open>insertFinalTabstop\<close> the parse returns a snippet: the fuel of one unit per
  character and one more never runs out. Irregular input comes back as Text holding
  the raw characters. A span of literal characters, among them every \<^verbatim>\<open>$\<close> that starts no
  form, every backslash that starts no known escape and every malformed braced form
  that a closing brace follows somewhere, is the Text of exactly these characters in
  front of what the rest of the template parses to, at top level and, in the descent,
  at any depth and with any fuel. An unterminated brace turns everything from its \<^verbatim>\<open>$\<close>
  on into one Text marker of exactly these characters. In particular a template
  without \<^verbatim>\<open>$\<close> and without backslash is one Text marker, and so is everything from a
  \<^verbatim>\<open>${\<close> that no closing brace follows.
\<close>

theorem parse_total:
  "(\<exists>snippet. parse template insertFinalTabstop = Some snippet) \<and>
   (CHR ''$'' \<notin> set template \<and> backslash \<notin> set template \<and> template \<noteq> [] \<longrightarrow>
      parse template False = Some [Text template]) \<and>
   (CHR ''}'' \<notin> set template \<longrightarrow>
      parse (''${'' @ template) False = Some [Text (''${'' @ template)]) \<and>
   (a \<noteq> [] \<and> literal_span False a [] \<longrightarrow> parse a False = Some [Text a]) \<and>
   (a \<noteq> [] \<and> literal_span False a b \<longrightarrow>
      parse (a @ b) insertFinalTabstop = map_option (add_text a) (parse b insertFinalTabstop)) \<and>
   (unterminated template \<longrightarrow>
      parse template insertFinalTabstop =
        Some (Text template # (if insertFinalTabstop then [Placeholder 0 [] None None] else []))) \<and>
   (a \<noteq> [] \<and> literal_span False a b \<and> unterminated b \<longrightarrow>
      parse (a @ b) False = Some [Text (a @ b)]) \<and>
   (a \<noteq> [] \<and> literal_span nested a b \<longrightarrow>
      parse_markers (length a + n) nested (a @ b) =
        followed_by (add_text a) (parse_markers n nested b)) \<and>
   (unterminated template \<and> length template < n \<longrightarrow>
      parse_markers n nested template = Some ([Text template], [], False)) \<and>
   ((case r of [] \<Rightarrow> True
     | d # r' \<Rightarrow> \<not> is_digit d \<and> \<not> is_name_start d \<and> d \<noteq> CHR ''{'') \<longrightarrow>
      parse (CHR ''$'' # r) insertFinalTabstop =
        map_option (add_text ''$'') (parse r insertFinalTabstop)) \<and>
   ((case r of [] \<Rightarrow> True | e # r' \<Rightarrow> e \<notin> {CHR ''$'', CHR ''}'', backslash}) \<longrightarrow>
      parse (backslash # r) insertFinalTabstop =
        map_option (add_text [backslash]) (parse r insertFinalTabstop)) \<and>
   (braced_flat r = None \<and> children_head r = None \<and> take 1 r = ''{'' \<and> CHR ''}'' \<in> set r \<longrightarrow>
      parse (CHR ''$'' # r) insertFinalTabstop =
        map_option (add_text ''$'') (parse r insertFinalTabstop))"
proof -
  obtain ms rest closed where
    "parse_markers (Suc (length template)) False template = Some (ms, rest, closed)"
    using parse_markers_fuel [of template "Suc (length template)" False] by auto
  then have 1: "\<exists>snippet. parse template insertFinalTabstop = Some snippet"
    by (simp add: parse_def)
  have 2: "parse template False = Some [Text template]"
    if "CHR ''$'' \<notin> set template" "backslash \<notin> set template" "template \<noteq> []"
    using parse_markers_plain [OF that(1,2), of "Suc (length template)"] that(3)
    by (simp add: parse_def)
  have 3: "parse (''${'' @ template) False = Some [Text (''${'' @ template)]"
    if "CHR ''}'' \<notin> set template"
    using parse_markers_unterminated [OF that, of "Suc (Suc (length template))" False]
    by (simp add: parse_def)
  have 5: "parse (a @ b) f = map_option (add_text a) (parse b f)"
    if "a \<noteq> []" "literal_span False a b" for a b f
    using that by (rule parse_literal_span)
  have empty: "parse [] False = Some []"
    by (simp add: parse_def)
  have 4: "parse a False = Some [Text a]" if "a \<noteq> []" "literal_span False a []"
    using 5 [OF that, of False] empty by simp
  have 6: "parse t f =
        Some (Text t # (if f then [Placeholder 0 [] None None] else []))"
    if "unterminated t" for t f
    using that by (rule parse_unterminated)
  have 7: "parse (a @ b) False = Some [Text (a @ b)]"
    if "a \<noteq> []" "literal_span False a b" "unterminated b"
    using 5 [OF that(1,2), of False] 6 [OF that(3), of False] by simp
  have 8: "parse_markers (length a + n) nested (a @ b) =
        followed_by (add_text a) (parse_markers n nested b)"
    if "a \<noteq> []" "literal_span nested a b"
    using that by (rule parse_markers_literal_span)
  have 9: "parse_markers n nested template = Some ([Text template], [], False)"
    if "unterminated template" "length template < n"
    using that by (rule parse_markers_unterminated_form)
  have one: "parse (c # r) f = map_option (add_text [c]) (parse r f)"
    if "literal_head False (c # r)" for c r f
    using 5 [of "[c]" r f] that by simp
  have 10: "parse (CHR ''$'' # r) insertFinalTabstop =
        map_option (add_text ''$'') (parse r insertFinalTabstop)"
    if "case r of [] \<Rightarrow> True
        | d # r' \<Rightarrow> \<not> is_digit d \<and> \<not> is_name_start d \<and> d \<noteq> CHR ''{''"
    using one [OF literal_head_stray [OF that]] .
  have 11: "parse (backslash # r) insertFinalTabstop =
        map_option (add_text [backslash]) (parse r insertFinalTabstop)"
    if "case r of [] \<Rightarrow> True | e # r' \<Rightarrow> e \<notin> {CHR ''$'', CHR ''}'', backslash}"
    using one [OF literal_head_escape [OF that]] .
  have 12: "parse (CHR ''$'' # r) insertFinalTabstop =
        map_option (add_text ''$'') (parse r insertFinalTabstop)"
    if "braced_flat r = None" "children_head r = None" "take 1 r = ''{''" "CHR ''}'' \<in> set r"
    using one [OF literal_head_malformed [OF that]] .
  show ?thesis
    using 1 2 3 4 5 [of a b insertFinalTabstop] 6 [of template insertFinalTabstop] 7 8 9 10 11 12
    by blast
qed

text \<open>
  A stray closing brace; placeholders whose brace is never closed, at top level, after
  literal text and nested; stray dollars, an empty and a malformed braced form and an
  unknown escape, alone and in front of a placeholder.
\<close>

theorem parse_total_witness:
  "parse ''no tabstop }'' False = Some [Text ''no tabstop }''] \<and>
   parse ''${1:never closed $2'' False = Some [Text ''${1:never closed $2''] \<and>
   parse (''5$ and ${} or ${1|x} or '' @ [backslash] @ ''q'') False =
     Some [Text (''5$ and ${} or ${1|x} or '' @ [backslash] @ ''q'')] \<and>
   parse ''$ $1'' True =
     Some [Text ''$ '', Placeholder 1 [] None None, Placeholder 0 [] None None] \<and>
   parse ''${1:never ${2:closed}'' True =
     Some [Text ''${1:never ${2:closed}'', Placeholder 0 [] None None] \<and>
   parse ''a$ ${1:never ${2:closed}'' False = Some [Text ''a$ ${1:never ${2:closed}''] \<and>
   parse_markers 4 True ''a$}b'' = Some ([Text ''a$''], ''b'', True) \<and>
   parse_markers 7 True ''${1:a'' = Some ([Text ''${1:a''], [], False) \<and>
   parse ''$-$1'' False = Some [Text ''$-'', Placeholder 1 [] None None] \<and>
   parse (backslash # ''n$1'') False = Some [Text (backslash # ''n''), Placeholder 1 [] None None] \<and>
   parse ''${}$1'' False = Some [Text ''${}'', Placeholder 1 [] None None]"
proof -
  have w1: "parse ''no tabstop }'' False = Some [Text ''no tabstop }'']"
    using parse_total [where template = "''no tabstop }''" and insertFinalTabstop = False]
    by (simp add: backslash_def)
  have w2: "parse ''${1:never closed $2'' False = Some [Text ''${1:never closed $2'']"
    using parse_total [where template = "''1:never closed $2''" and insertFinalTabstop = False]
    by simp
  have "literal_span False (''5$ and ${} or ${1|x} or '' @ [backslash] @ ''q'') []"
    by code_simp
  then have w3: "parse (''5$ and ${} or ${1|x} or '' @ [backslash] @ ''q'') False =
     Some [Text (''5$ and ${} or ${1|x} or '' @ [backslash] @ ''q'')]"
    using parse_total [where a = "''5$ and ${} or ${1|x} or '' @ [backslash] @ ''q''"]
    by blast
  have "literal_span False ''$ '' ''$1''"
    by code_simp
  then have "parse (''$ '' @ ''$1'') True = map_option (add_text ''$ '') (parse ''$1'' True)"
    using parse_total [where a = "''$ ''" and b = "''$1''" and insertFinalTabstop = True]
    by blast
  moreover have "parse ''$1'' True =
      Some [Placeholder 1 [] None None, Placeholder 0 [] None None]"
    by code_simp
  ultimately have w4: "parse ''$ $1'' True =
     Some [Text ''$ '', Placeholder 1 [] None None, Placeholder 0 [] None None]"
    by simp
  have un: "unterminated ''${1:never ${2:closed}''"
    by code_simp
  then have w5: "parse ''${1:never ${2:closed}'' True =
     Some [Text ''${1:never ${2:closed}'', Placeholder 0 [] None None]"
    using parse_total [where template = "''${1:never ${2:closed}''" and insertFinalTabstop = True]
    by simp
  have "literal_span False ''a$ '' ''${1:never ${2:closed}''"
    by code_simp
  then have "parse (''a$ '' @ ''${1:never ${2:closed}'') False =
      Some [Text (''a$ '' @ ''${1:never ${2:closed}'')]"
    using un parse_total [where a = "''a$ ''" and b = "''${1:never ${2:closed}''"]
    by blast
  then have w6: "parse ''a$ ${1:never ${2:closed}'' False = Some [Text ''a$ ${1:never ${2:closed}'']"
    by simp
  have "literal_span True ''a$'' ''}b''"
    by code_simp
  then have "parse_markers (length ''a$'' + 2) True (''a$'' @ ''}b'') =
      followed_by (add_text ''a$'') (parse_markers 2 True ''}b'')"
    using parse_total [where a = "''a$''" and b = "''}b''" and nested = True and n = 2]
    by blast
  moreover have "parse_markers 2 True ''}b'' = Some ([], ''b'', True)"
    by code_simp
  ultimately have w7: "parse_markers 4 True ''a$}b'' = Some ([Text ''a$''], ''b'', True)"
    by (simp add: followed_by_def eval_nat_numeral del: parse_markers.simps)
  have "unterminated ''${1:a''"
    by code_simp
  then have w8: "parse_markers 7 True ''${1:a'' = Some ([Text ''${1:a''], [], False)"
    using parse_total [where template = "''${1:a''" and nested = True and n = 7]
    by (simp del: parse_markers.simps)
  have "parse (CHR ''$'' # ''-$1'') False = map_option (add_text ''$'') (parse ''-$1'' False)"
    using parse_total [where r = "''-$1''" and insertFinalTabstop = False]
    by (simp add: is_digit_def is_name_start_def)
  moreover have "parse ''-$1'' False = Some [Text ''-'', Placeholder 1 [] None None]"
    by code_simp
  ultimately have w9: "parse ''$-$1'' False = Some [Text ''$-'', Placeholder 1 [] None None]"
    by simp
  have "parse (backslash # ''n$1'') False =
      map_option (add_text [backslash]) (parse ''n$1'' False)"
    using parse_total [where r = "''n$1''" and insertFinalTabstop = False]
    by (simp add: backslash_def)
  moreover have "parse ''n$1'' False = Some [Text ''n'', Placeholder 1 [] None None]"
    by code_simp
  ultimately have w10: "parse (backslash # ''n$1'') False =
      Some [Text (backslash # ''n''), Placeholder 1 [] None None]"
    by simp
  have "braced_flat ''{}$1'' = None" "children_head ''{}$1'' = None"
    by code_simp+
  then have "parse (CHR ''$'' # ''{}$1'') False =
      map_option (add_text ''$'') (parse ''{}$1'' False)"
    using parse_total [where r = "''{}$1''" and insertFinalTabstop = False]
    by simp
  moreover have "parse ''{}$1'' False = Some [Text ''{}'', Placeholder 1 [] None None]"
    by code_simp
  ultimately have w11: "parse ''${}$1'' False = Some [Text ''${}'', Placeholder 1 [] None None]"
    by simp
  show ?thesis
    using w1 w2 w3 w4 w5 w6 w7 w8 w9 w10 w11 by blast
qed



text \<open>
  C5, on the session modelled from the specification. After a start that answers
  active, the navigation order is the distinct non-zero tabstop indices of the tree in
  ascending order, then 0; the session is active at its first index; \<open>k\<close> calls of
  \<^verbatim>\<open>nextPlaceholder\<close> lead to its \<open>k\<close>-th index as long as that is not the last, each move
  selecting the span of the index it reaches; the call that reaches the last index,
  tabstop 0, selects tabstop 0 and leaves the session inactive. \<^verbatim>\<open>previousPlaceholder\<close> at
  any index but the first moves to the index before it in the navigation order and
  selects its span, so it takes back the last \<^verbatim>\<open>nextPlaceholder\<close>; at the first index it
  changes nothing and requests nothing.
\<close>

theorem navigation_traversal:
  assumes started:
    "start_session tf resolver buf template selectOnInsert position = Some (True, s0, rs)"
  shows "navigation s0 =
           sort (remdups (filter (\<lambda>i. i \<noteq> 0) (concat (map tabstops (markers s0))))) @ [0] \<and>
         active s0 = Some (hd (navigation s0)) \<and>
         (\<forall>k. Suc k < length (navigation s0) \<longrightarrow>
            ((\<lambda>s. fst (next_placeholder tf s)) ^^ k) s0 = s0\<lparr>active := Some (navigation s0 ! k)\<rparr>) \<and>
         (\<forall>k. Suc (Suc k) = length (navigation s0) \<longrightarrow>
            next_placeholder tf (((\<lambda>s. fst (next_placeholder tf s)) ^^ k) s0) =
              (s0\<lparr>active := None\<rparr>, place tf True 0 (markers s0))) \<and>
         (length (navigation s0) = 1 \<longrightarrow> active (fst (next_placeholder tf s0)) = None) \<and>
         previous_placeholder tf s0 = (s0, []) \<and>
         (\<forall>k. Suc (Suc k) < length (navigation s0) \<longrightarrow>
            next_placeholder tf (((\<lambda>s. fst (next_placeholder tf s)) ^^ k) s0) =
              (s0\<lparr>active := Some (navigation s0 ! Suc k)\<rparr>,
               place tf True (navigation s0 ! Suc k) (markers s0))) \<and>
         (\<forall>k. Suc k < length (navigation s0) \<longrightarrow>
            previous_placeholder tf (s0\<lparr>active := Some (navigation s0 ! Suc k)\<rparr>) =
              (s0\<lparr>active := Some (navigation s0 ! k)\<rparr>,
               place tf True (navigation s0 ! k) (markers s0))) \<and>
         (\<forall>k. Suc (Suc k) < length (navigation s0) \<longrightarrow>
            previous_placeholder tf (((\<lambda>s. fst (next_placeholder tf s)) ^^ Suc k) s0) =
              (((\<lambda>s. fst (next_placeholder tf s)) ^^ k) s0,
               place tf True (navigation s0 ! k) (markers s0)))"
proof -
  note st = start_session_active [OF started]
  let ?ms = "markers s0"
  have nav: "navigation s0 = navigation_order ?ms" by (rule st(1))
  have act: "active s0 = Some (hd (navigation_order ?ms))" using st by simp
  have 1: "navigation s0 =
           sort (remdups (filter (\<lambda>i. i \<noteq> 0) (concat (map tabstops ?ms)))) @ [0]"
    using nav by (simp add: navigation_order_def)
  have 3: "((\<lambda>s. fst (next_placeholder tf s)) ^^ k) s0 = s0\<lparr>active := Some (navigation s0 ! k)\<rparr>"
    if "Suc k < length (navigation s0)" for k
    using nexts_active [OF nav act, of k tf] that nav by simp
  have 4: "next_placeholder tf (((\<lambda>s. fst (next_placeholder tf s)) ^^ k) s0) =
              (s0\<lparr>active := None\<rparr>, place tf True 0 (markers s0))"
    if "Suc (Suc k) = length (navigation s0)" for k
  proof -
    let ?s = "s0\<lparr>active := Some (navigation_order ?ms ! k)\<rparr>"
    have "((\<lambda>s. fst (next_placeholder tf s)) ^^ k) s0 = ?s"
      using 3 [of k] that nav by simp
    moreover have "next_placeholder tf ?s = (?s\<lparr>active := None\<rparr>, place tf True 0 (markers ?s))"
      using next_placeholder_step [of ?s ?ms k tf] nav that by simp
    ultimately show ?thesis by simp
  qed
  have 5: "active (fst (next_placeholder tf s0)) = None" if "length (navigation s0) = 1"
  proof -
    have "successor (navigation s0 ! 0) (navigation s0) = None"
      using successor_last [of "navigation s0" 0] that nav navigation_order_props(1) [of ?ms]
      by simp
    moreover have "active s0 = Some (navigation s0 ! 0)"
      using st(2) that by (cases "navigation s0") simp_all
    ultimately show ?thesis
      by (simp add: next_placeholder_def deactivate_session_def)
  qed
  have 6: "previous_placeholder tf s0 = (s0, [])"
    using st(2) predecessor_hd [of "navigation s0"] nav navigation_order_props(5) [of ?ms]
    by (simp add: previous_placeholder_def)
  have 7: "next_placeholder tf (((\<lambda>s. fst (next_placeholder tf s)) ^^ k) s0) =
              (s0\<lparr>active := Some (navigation s0 ! Suc k)\<rparr>,
               place tf True (navigation s0 ! Suc k) (markers s0))"
    if "Suc (Suc k) < length (navigation s0)" for k
  proof -
    let ?s = "s0\<lparr>active := Some (navigation_order ?ms ! k)\<rparr>"
    have "((\<lambda>s. fst (next_placeholder tf s)) ^^ k) s0 = ?s"
      using 3 [of k] that nav by simp
    moreover have "next_placeholder tf ?s =
        (?s\<lparr>active := Some (navigation_order ?ms ! Suc k)\<rparr>,
         place tf True (navigation_order ?ms ! Suc k) (markers ?s))"
      using next_placeholder_step [of ?s ?ms k tf] nav that by simp
    ultimately show ?thesis using nav by simp
  qed
  have 8: "previous_placeholder tf (s0\<lparr>active := Some (navigation s0 ! Suc k)\<rparr>) =
              (s0\<lparr>active := Some (navigation s0 ! k)\<rparr>,
               place tf True (navigation s0 ! k) (markers s0))"
    if "Suc k < length (navigation s0)" for k
    using previous_placeholder_step
        [of "s0\<lparr>active := Some (navigation s0 ! Suc k)\<rparr>" ?ms k tf] nav that
    by simp
  have 9: "previous_placeholder tf (((\<lambda>s. fst (next_placeholder tf s)) ^^ Suc k) s0) =
              (((\<lambda>s. fst (next_placeholder tf s)) ^^ k) s0,
               place tf True (navigation s0 ! k) (markers s0))"
    if "Suc (Suc k) < length (navigation s0)" for k
  proof -
    have "((\<lambda>s. fst (next_placeholder tf s)) ^^ Suc k) s0 =
        s0\<lparr>active := Some (navigation s0 ! Suc k)\<rparr>"
      using 3 [of "Suc k"] that by simp
    moreover have "((\<lambda>s. fst (next_placeholder tf s)) ^^ k) s0 =
        s0\<lparr>active := Some (navigation s0 ! k)\<rparr>"
      using 3 [of k] that by simp
    ultimately show ?thesis using 8 [of k] that by simp
  qed
  show ?thesis using 1 st(2) 3 4 5 6 7 8 9 by blast
qed


text \<open>
  The template \<^verbatim>\<open>$2 $1 $0\<close>: start activates 1, \<^verbatim>\<open>nextPlaceholder\<close> moves to 2, a further
  \<^verbatim>\<open>nextPlaceholder\<close> selects tabstop 0 and deactivates, and \<^verbatim>\<open>previousPlaceholder\<close> at
  tabstop 1 is a no-op, while at tabstop 2 it moves back to 1. The template \<^verbatim>\<open>done$0\<close>, whose only tabstop is 0: start activates
  0 and \<^verbatim>\<open>nextPlaceholder\<close> deactivates.
\<close>

theorem navigation_traversal_witness:
  "start_session (\<lambda>T v. v) (\<lambda>name. None) 1 ''$2 $1 $0'' True 0 =
     Some (True,
           \<lparr>buffer = 1,
            markers = [Placeholder 2 [] None None, Text '' '', Placeholder 1 [] None None,
                       Text '' '', Placeholder 0 [] None None],
            active = Some 1, navigation = [1, 2, 0]\<rparr>,
           [InsertText 0 ''  '', SetSelection (1, 1)]) \<and>
   fst (next_placeholder (\<lambda>T v. v)
     \<lparr>buffer = 1,
      markers = [Placeholder 2 [] None None, Text '' '', Placeholder 1 [] None None,
                 Text '' '', Placeholder 0 [] None None],
      active = Some 1, navigation = [1, 2, 0]\<rparr>) =
     \<lparr>buffer = 1,
      markers = [Placeholder 2 [] None None, Text '' '', Placeholder 1 [] None None,
                 Text '' '', Placeholder 0 [] None None],
      active = Some 2, navigation = [1, 2, 0]\<rparr> \<and>
   next_placeholder (\<lambda>T v. v)
     \<lparr>buffer = 1,
      markers = [Placeholder 2 [] None None, Text '' '', Placeholder 1 [] None None,
                 Text '' '', Placeholder 0 [] None None],
      active = Some 2, navigation = [1, 2, 0]\<rparr> =
     (\<lparr>buffer = 1,
       markers = [Placeholder 2 [] None None, Text '' '', Placeholder 1 [] None None,
                  Text '' '', Placeholder 0 [] None None],
       active = None, navigation = [1, 2, 0]\<rparr>,
      [SetSelection (2, 2)]) \<and>
   previous_placeholder (\<lambda>T v. v)
     \<lparr>buffer = 1,
      markers = [Placeholder 2 [] None None, Text '' '', Placeholder 1 [] None None,
                 Text '' '', Placeholder 0 [] None None],
      active = Some 1, navigation = [1, 2, 0]\<rparr> =
     (\<lparr>buffer = 1,
       markers = [Placeholder 2 [] None None, Text '' '', Placeholder 1 [] None None,
                  Text '' '', Placeholder 0 [] None None],
       active = Some 1, navigation = [1, 2, 0]\<rparr>, []) \<and>
   start_session (\<lambda>T v. v) (\<lambda>name. None) 1 ''done$0'' True 0 =
     Some (True,
           \<lparr>buffer = 1, markers = [Text ''done'', Placeholder 0 [] None None],
            active = Some 0, navigation = [0]\<rparr>,
           [InsertText 0 ''done'', SetSelection (4, 4)]) \<and>
   active (fst (next_placeholder (\<lambda>T v. v)
     \<lparr>buffer = 1, markers = [Text ''done'', Placeholder 0 [] None None],
      active = Some 0, navigation = [0]\<rparr>)) = None \<and>
   next_placeholder (\<lambda>T v. v)
     \<lparr>buffer = 1,
      markers = [Placeholder 2 [] None None, Text '' '', Placeholder 1 [] None None,
                 Text '' '', Placeholder 0 [] None None],
      active = Some 1, navigation = [1, 2, 0]\<rparr> =
     (\<lparr>buffer = 1,
       markers = [Placeholder 2 [] None None, Text '' '', Placeholder 1 [] None None,
                  Text '' '', Placeholder 0 [] None None],
       active = Some 2, navigation = [1, 2, 0]\<rparr>,
      [SetSelection (0, 0)]) \<and>
   previous_placeholder (\<lambda>T v. v)
     \<lparr>buffer = 1,
      markers = [Placeholder 2 [] None None, Text '' '', Placeholder 1 [] None None,
                 Text '' '', Placeholder 0 [] None None],
      active = Some 2, navigation = [1, 2, 0]\<rparr> =
     (\<lparr>buffer = 1,
       markers = [Placeholder 2 [] None None, Text '' '', Placeholder 1 [] None None,
                  Text '' '', Placeholder 0 [] None None],
       active = Some 1, navigation = [1, 2, 0]\<rparr>,
      [SetSelection (1, 1)])"
proof -
  have final_only: "start_session (\<lambda>T v. v) (\<lambda>name. None) 1 ''done$0'' True 0 =
     Some (True,
           \<lparr>buffer = 1, markers = [Text ''done'', Placeholder 0 [] None None],
            active = Some 0, navigation = [0]\<rparr>,
           [InsertText 0 ''done'', SetSelection (4, 4)])"
    by code_simp
  note u = navigation_traversal [OF final_only]
  note t = navigation_traversal [OF start_session_example]
  have 1: "((\<lambda>s. fst (next_placeholder (\<lambda>T v. v) s)) ^^ 1)
     \<lparr>buffer = 1,
      markers = [Placeholder 2 [] None None, Text '' '', Placeholder 1 [] None None,
                 Text '' '', Placeholder 0 [] None None],
      active = Some 1, navigation = [1, 2, 0]\<rparr> =
     \<lparr>buffer = 1,
      markers = [Placeholder 2 [] None None, Text '' '', Placeholder 1 [] None None,
                 Text '' '', Placeholder 0 [] None None],
      active = Some 2, navigation = [1, 2, 0]\<rparr>"
    using t [THEN conjunct2, THEN conjunct2, THEN conjunct1, rule_format, of 1] by simp
  have 2: "next_placeholder (\<lambda>T v. v)
     (((\<lambda>s. fst (next_placeholder (\<lambda>T v. v) s)) ^^ 1)
     \<lparr>buffer = 1,
      markers = [Placeholder 2 [] None None, Text '' '', Placeholder 1 [] None None,
                 Text '' '', Placeholder 0 [] None None],
      active = Some 1, navigation = [1, 2, 0]\<rparr>) =
     (\<lparr>buffer = 1,
       markers = [Placeholder 2 [] None None, Text '' '', Placeholder 1 [] None None,
                  Text '' '', Placeholder 0 [] None None],
       active = None, navigation = [1, 2, 0]\<rparr>,
      place (\<lambda>T v. v) True 0
        [Placeholder 2 [] None None, Text '' '', Placeholder 1 [] None None,
         Text '' '', Placeholder 0 [] None None])"
    using t [THEN conjunct2, THEN conjunct2, THEN conjunct2, THEN conjunct1, rule_format, of 1]
    by simp
  have 3: "place (\<lambda>T v. v) True 0
        [Placeholder 2 [] None None, Text '' '', Placeholder 1 [] None None,
         Text '' '', Placeholder 0 [] None None] = [SetSelection (2, 2)]"
    by (simp add: place_def find_span_def)
  have 4: "place (\<lambda>T v. v) True 2
        [Placeholder 2 [] None None, Text '' '', Placeholder 1 [] None None,
         Text '' '', Placeholder 0 [] None None] = [SetSelection (0, 0)]"
    "place (\<lambda>T v. v) True (Suc 0)
        [Placeholder 2 [] None None, Text '' '', Placeholder 1 [] None None,
         Text '' '', Placeholder 0 [] None None] = [SetSelection (1, 1)]"
    by (simp_all add: place_def find_span_def)
  have 5: "next_placeholder (\<lambda>T v. v)
     \<lparr>buffer = 1,
      markers = [Placeholder 2 [] None None, Text '' '', Placeholder 1 [] None None,
                 Text '' '', Placeholder 0 [] None None],
      active = Some 1, navigation = [1, 2, 0]\<rparr> =
     (\<lparr>buffer = 1,
       markers = [Placeholder 2 [] None None, Text '' '', Placeholder 1 [] None None,
                  Text '' '', Placeholder 0 [] None None],
       active = Some 2, navigation = [1, 2, 0]\<rparr>,
      [SetSelection (0, 0)])"
    using t [THEN conjunct2, THEN conjunct2, THEN conjunct2, THEN conjunct2, THEN conjunct2,
        THEN conjunct2, THEN conjunct1, rule_format, of 0] 4
    by simp
  have 6: "previous_placeholder (\<lambda>T v. v)
     \<lparr>buffer = 1,
      markers = [Placeholder 2 [] None None, Text '' '', Placeholder 1 [] None None,
                 Text '' '', Placeholder 0 [] None None],
      active = Some 2, navigation = [1, 2, 0]\<rparr> =
     (\<lparr>buffer = 1,
       markers = [Placeholder 2 [] None None, Text '' '', Placeholder 1 [] None None,
                  Text '' '', Placeholder 0 [] None None],
       active = Some 1, navigation = [1, 2, 0]\<rparr>,
      [SetSelection (1, 1)])"
    using t [THEN conjunct2, THEN conjunct2, THEN conjunct2, THEN conjunct2, THEN conjunct2,
        THEN conjunct2, THEN conjunct2, THEN conjunct1, rule_format, of 0] 4
    by simp
  show ?thesis
    using start_session_example final_only 1 2 3 5 6 t u by simp
qed




text \<open>
  C7, as amended. Let \<open>out\<close> be what \<^verbatim>\<open>start\<close> does on the session \<^verbatim>\<open>insertSnippet\<close> uses (the
  registered one, or a new one). \<^verbatim>\<open>insertSnippet\<close> answers what \<^verbatim>\<open>start\<close> answered, except that it
  throws when \<^verbatim>\<open>start\<close> answered true while the status item is undefined. When \<^verbatim>\<open>start\<close>
  answers false and the buffer had no session, the registry is left as it was: the new
  session is not registered. When \<^verbatim>\<open>start\<close> answers false on a session that was registered,
  \<^verbatim>\<open>insertSnippet\<close> does not remove it: it stays registered unless it emitted its cancel
  event.
\<close>

theorem insertSnippet_answer:
  assumes out: "out = start cls snippet select position
                        (case sessionMap this (nvim_bufnr ws) of
                           None \<Rightarrow> new_session cls (nvim_bufnr ws)
                         | Some session \<Rightarrow> members session)"
  shows "fst (insertSnippet cls ws snippet select position this) =
           (if returned out \<and> statusItem this = None then Inl TypeError else Inr (returned out)) \<and>
         (\<not> returned out \<and> sessionMap this (nvim_bufnr ws) = None \<longrightarrow>
            (\<forall>k. sessionMap (snd (insertSnippet cls ws snippet select position this)) k =
                  sessionMap this k)) \<and>
         (\<forall>session. \<not> returned out \<and> \<not> cancelled out \<and>
            sessionMap this (nvim_bufnr ws) = Some session \<longrightarrow>
            sessionMap (snd (insertSnippet cls ws snippet select position this)) (nvim_bufnr ws) =
              Some (session\<lparr>members := after out\<rparr>))"
proof -
  have "fst (insertSnippet cls ws snippet select position this) =
           (if returned out \<and> statusItem this = None then Inl TypeError else Inr (returned out))"
    unfolding out by (simp add: insertSnippet_result Let_def)
  moreover have "\<forall>k. sessionMap (snd (insertSnippet cls ws snippet select position this)) k =
                  sessionMap this k"
    if "\<not> returned out" "sessionMap this (nvim_bufnr ws) = None"
    using that unfolding out by (simp add: insertSnippet_sessionMap_new)
  moreover have "sessionMap (snd (insertSnippet cls ws snippet select position this)) (nvim_bufnr ws) =
              Some (session\<lparr>members := after out\<rparr>)"
    if "\<not> returned out" "\<not> cancelled out" "sessionMap this (nvim_bufnr ws) = Some session"
    for session
    using that unfolding out by (simp add: insertSnippet_sessionMap Let_def)
  ultimately show ?thesis by blast
qed

text \<open>
  A snippet without tabstops in a buffer without a session: false, and no session. The
  same in a buffer with a session whose \<^verbatim>\<open>start\<close> emits no cancel event: false, and the
  session stays.
\<close>

theorem insertSnippet_answer_witness:
  "insertSnippet flag_class
     \<lparr>workspace_bufnr = 1, nvim_bufnr = 1, getDocument = (\<lambda>uri. None)\<rparr> ''plain text'' True None
     \<lparr>sessionMap = Map.empty, statusItem = Some False, constructed = 0, calls = []\<rparr> =
   (Inr False,
     \<lparr>sessionMap = Map.empty, statusItem = Some False, constructed = 1,
      calls = [Session_start 0 ''plain text'' True None]\<rparr>) \<and>
   sessionMap (snd (insertSnippet flag_class
     \<lparr>workspace_bufnr = 1, nvim_bufnr = 1, getDocument = (\<lambda>uri. None)\<rparr> ''plain text'' True None
     \<lparr>sessionMap = Map.empty, statusItem = Some False, constructed = 0, calls = []\<rparr>)) 1 = None \<and>
   fst (insertSnippet flag_class
     \<lparr>workspace_bufnr = 2, nvim_bufnr = 2, getDocument = (\<lambda>uri. None)\<rparr> ''more text'' True None
     \<lparr>sessionMap = [2 \<mapsto> \<lparr>oid = 3, session_bufnr = 2, onCancel = [2], members = True\<rparr>],
      statusItem = Some True, constructed = 4, calls = []\<rparr>) = Inr False \<and>
   sessionMap (snd (insertSnippet flag_class
     \<lparr>workspace_bufnr = 2, nvim_bufnr = 2, getDocument = (\<lambda>uri. None)\<rparr> ''more text'' True None
     \<lparr>sessionMap = [2 \<mapsto> \<lparr>oid = 3, session_bufnr = 2, onCancel = [2], members = True\<rparr>],
      statusItem = Some True, constructed = 4, calls = []\<rparr>)) 2 =
     Some \<lparr>oid = 3, session_bufnr = 2, onCancel = [2], members = False\<rparr>"
proof -
  have run: "insertSnippet flag_class
     \<lparr>workspace_bufnr = 1, nvim_bufnr = 1, getDocument = (\<lambda>uri. None)\<rparr> ''plain text'' True None
     \<lparr>sessionMap = Map.empty, statusItem = Some False, constructed = 0, calls = []\<rparr> =
   (Inr False,
     \<lparr>sessionMap = Map.empty, statusItem = Some False, constructed = 1,
      calls = [Session_start 0 ''plain text'' True None]\<rparr>)"
    by (simp add: insertSnippet_def getSession_def flag_class_def effects_def)
  show ?thesis
    using run
      insertSnippet_answer [where cls = flag_class and snippet = "''plain text''"
        and select = True and position = None
        and this = "\<lparr>sessionMap = Map.empty, statusItem = Some False, constructed = 0, calls = []\<rparr>"
        and ws = "\<lparr>workspace_bufnr = 1, nvim_bufnr = 1, getDocument = (\<lambda>uri. None)\<rparr>",
        OF refl]
      insertSnippet_answer [where cls = flag_class and snippet = "''more text''"
        and select = True and position = None
        and this = "\<lparr>sessionMap =
                       [2 \<mapsto> \<lparr>oid = 3, session_bufnr = 2, onCancel = [2], members = True\<rparr>],
                     statusItem = Some True, constructed = 4, calls = []\<rparr>"
        and ws = "\<lparr>workspace_bufnr = 2, nvim_bufnr = 2, getDocument = (\<lambda>uri. None)\<rparr>",
        OF refl]
    by (simp add: flag_class_def)
qed

text \<open>
  The claim as it stands has no session registered whenever the answer is false. Here
  buffer 1 has a session, \<^verbatim>\<open>start\<close> answers false without emitting the cancel event, and the
  session is still registered afterwards: only the branch \<^verbatim>\<open>else if (disposable)\<close> undoes
  anything, and \<^verbatim>\<open>disposable\<close> is undefined for a session found in the map.
\<close>

theorem insertSnippet_false_keeps_session_counterexample:
  "fst (insertSnippet flag_class
     \<lparr>workspace_bufnr = 1, nvim_bufnr = 1, getDocument = (\<lambda>uri. None)\<rparr> ''plain text'' True None
     \<lparr>sessionMap = [1 \<mapsto> \<lparr>oid = 0, session_bufnr = 1, onCancel = [1], members = True\<rparr>],
      statusItem = Some True, constructed = 1, calls = []\<rparr>) = Inr False \<and>
   sessionMap (snd (insertSnippet flag_class
     \<lparr>workspace_bufnr = 1, nvim_bufnr = 1, getDocument = (\<lambda>uri. None)\<rparr> ''plain text'' True None
     \<lparr>sessionMap = [1 \<mapsto> \<lparr>oid = 0, session_bufnr = 1, onCancel = [1], members = True\<rparr>],
      statusItem = Some True, constructed = 1, calls = []\<rparr>)) 1 =
     Some \<lparr>oid = 0, session_bufnr = 1, onCancel = [1], members = False\<rparr>"
  by (simp add: insertSnippet_sessionMap insertSnippet_result flag_class_def)


text \<open>
  C8. \<^verbatim>\<open>resolveSnippet\<close> calls the parser once, with \<^verbatim>\<open>insertFinalTabstop\<close> true, runs one
  variable-resolution pass on what the parser returned, and returns that snippet.
  Whatever property the parser grants for every body when the flag is true, and
  resolution keeps, holds of the returned snippet: so it has its tabstop 0 when the
  parser honours the flag. No other operation of the manager runs a resolution pass.
\<close>

theorem resolveSnippet_single_pass:
  "fst (resolveSnippet md body this) =
     snippet_resolveVariables md (new_resolver md) (parser_parse md body True) \<and>
   calls (snd (resolveSnippet md body this)) =
     calls this @ [Parser_parse body True, Snippet_resolveVariables] \<and>
   ((\<forall>b. P (parser_parse md b True)) \<and>
    (\<forall>resolver snippet. P snippet \<longrightarrow> P (snippet_resolveVariables md resolver snippet)) \<longrightarrow>
      P (fst (resolveSnippet md body this))) \<and>
   count_list (calls (snd (insertSnippet cls ws snippet select position this)))
       Snippet_resolveVariables =
     count_list (calls this) Snippet_resolveVariables \<and>
   count_list (calls (onDidChangeTextDocument cls ws e this)) Snippet_resolveVariables =
     count_list (calls this) Snippet_resolveVariables \<and>
   count_list (calls (cancel cls ws this)) Snippet_resolveVariables =
     count_list (calls this) Snippet_resolveVariables \<and>
   count_list (calls (snd (manager_nextPlaceholder cls ws this))) Snippet_resolveVariables =
     count_list (calls this) Snippet_resolveVariables \<and>
   count_list (calls (snd (manager_previousPlaceholder cls ws this))) Snippet_resolveVariables =
     count_list (calls this) Snippet_resolveVariables \<and>
   count_list (calls (manager_selectCurrentPlaceholder cls ws this)) Snippet_resolveVariables =
     count_list (calls this) Snippet_resolveVariables \<and>
   count_list (calls (onInsertEnter cls ws this)) Snippet_resolveVariables =
     count_list (calls this) Snippet_resolveVariables"
proof -
  have "count_list (calls (snd (insertSnippet cls ws snippet select position this)))
       Snippet_resolveVariables = count_list (calls this) Snippet_resolveVariables"
    by (simp add: insertSnippet_calls Let_def)
  moreover have
    "count_list (calls (onDidChangeTextDocument cls ws e this)) Snippet_resolveVariables =
       count_list (calls this) Snippet_resolveVariables"
    by (simp add: onDidChangeTextDocument_def getSession_def split: option.splits)
  moreover have "count_list (calls (cancel cls ws this)) Snippet_resolveVariables =
       count_list (calls this) Snippet_resolveVariables"
    by (simp add: cancel_calls split: option.splits)
  moreover have
    "count_list (calls (snd (manager_nextPlaceholder cls ws this))) Snippet_resolveVariables =
       count_list (calls this) Snippet_resolveVariables"
    by (simp add: manager_nextPlaceholder_def disable_and_hide_def Let_def
        split: option.splits)
  moreover have
    "count_list (calls (snd (manager_previousPlaceholder cls ws this))) Snippet_resolveVariables =
       count_list (calls this) Snippet_resolveVariables"
    by (simp add: manager_previousPlaceholder_def disable_and_hide_def Let_def
        split: option.splits)
  moreover have
    "count_list (calls (manager_selectCurrentPlaceholder cls ws this)) Snippet_resolveVariables =
       count_list (calls this) Snippet_resolveVariables"
    by (simp add: manager_selectCurrentPlaceholder_def split: option.splits)
  moreover have "count_list (calls (onInsertEnter cls ws this)) Snippet_resolveVariables =
       count_list (calls this) Snippet_resolveVariables"
    by (simp add: onInsertEnter_def split: option.splits)
  ultimately show ?thesis
    by (simp add: resolveSnippet_def Let_def)
qed

text \<open>
  With the parser and the resolution pass modelled from the specification, and a
  resolver that knows \<^verbatim>\<open>TM_FILENAME\<close>: one parse, one pass, and the snippet returned ends
  with the tabstop 0 the body did not declare.
\<close>

theorem resolveSnippet_single_pass_witness:
  "fst (resolveSnippet
     \<lparr>parser_parse = parse,
      new_resolver = (\<lambda>name. if name = ''TM_FILENAME'' then Some ''a.ts'' else None),
      snippet_resolveVariables = (\<lambda>resolver. map_option (resolveVariables resolver))\<rparr>
     ''${TM_FILENAME}: $1''
     \<lparr>sessionMap = Map.empty, statusItem = None, constructed = 0, calls = []\<rparr>) =
     Some [Variable ''TM_FILENAME'' [Text ''a.ts''] None, Text '': '',
           Placeholder 1 [] None None, Placeholder 0 [] None None] \<and>
   calls (snd (resolveSnippet
     \<lparr>parser_parse = parse,
      new_resolver = (\<lambda>name. if name = ''TM_FILENAME'' then Some ''a.ts'' else None),
      snippet_resolveVariables = (\<lambda>resolver. map_option (resolveVariables resolver))\<rparr>
     ''${TM_FILENAME}: $1''
     \<lparr>sessionMap = Map.empty, statusItem = None, constructed = 0, calls = []\<rparr>)) =
     [Parser_parse ''${TM_FILENAME}: $1'' True, Snippet_resolveVariables] \<and>
   (case fst (resolveSnippet
     \<lparr>parser_parse = parse,
      new_resolver = (\<lambda>name. if name = ''TM_FILENAME'' then Some ''a.ts'' else None),
      snippet_resolveVariables = (\<lambda>resolver. map_option (resolveVariables resolver))\<rparr>
     ''${TM_FILENAME}: $1''
     \<lparr>sessionMap = Map.empty, statusItem = None, constructed = 0, calls = []\<rparr>) of
      None \<Rightarrow> False
    | Some ms \<Rightarrow> list_ex (has_tabstop 0) ms)"
proof -
  have parsed: "parse ''${TM_FILENAME}: $1'' True =
      Some [Variable ''TM_FILENAME'' [] None, Text '': '', Placeholder 1 [] None None,
            Placeholder 0 [] None None]"
    by code_simp
  have 1: "\<forall>b. case parse b True of None \<Rightarrow> False | Some ms \<Rightarrow> list_ex (has_tabstop 0) ms"
  proof
    fix b
    obtain ms where "parse b True = Some ms" using parse_returns [of b True] by auto
    then show "case parse b True of None \<Rightarrow> False | Some ms \<Rightarrow> list_ex (has_tabstop 0) ms"
      using parse_final_tabstop [of b ms] by simp
  qed
  have 2: "\<forall>resolver snippet.
      (case snippet of None \<Rightarrow> False | Some ms \<Rightarrow> list_ex (has_tabstop 0) ms) \<longrightarrow>
      (case map_option (resolveVariables resolver) snippet of
         None \<Rightarrow> False
       | Some ms \<Rightarrow> list_ex (has_tabstop 0) ms)"
    by (auto simp: has_tabstop_resolveVariables split: option.splits)
  show ?thesis
    using 1 2 parsed
      resolveSnippet_single_pass [where
        md = "\<lparr>parser_parse = parse,
               new_resolver = (\<lambda>name. if name = ''TM_FILENAME'' then Some ''a.ts'' else None),
               snippet_resolveVariables = (\<lambda>resolver. map_option (resolveVariables resolver))\<rparr>"
        and body = "''${TM_FILENAME}: $1''"
        and this = "\<lparr>sessionMap = Map.empty, statusItem = None, constructed = 0, calls = []\<rparr>"
        and P = "\<lambda>s. case s of None \<Rightarrow> False | Some ms \<Rightarrow> list_ex (has_tabstop 0) ms"]
    by (simp add: resolveSnippet_def resolveVariables_def)
qed

text \<open>
  C9. Of a text-change notification the handler passes \<^verbatim>\<open>contentChanges[0]\<close> only: whatever
  follows the first change does not influence what the handler does, and the one call of
  \<^verbatim>\<open>synchronizeUpdatedPlaceholders\<close> it makes (when the changed buffer has a session and the
  session is active) carries the first change; no other change reaches the session.
\<close>

theorem onDidChangeTextDocument_first_change_only:
  "onDidChangeTextDocument cls ws (e\<lparr>contentChanges := c # rest\<rparr>) this =
     onDidChangeTextDocument cls ws (e\<lparr>contentChanges := [c]\<rparr>) this \<and>
   sync_args (calls (onDidChangeTextDocument cls ws (e\<lparr>contentChanges := c # rest\<rparr>) this)) =
     sync_args (calls this) @
       (if \<exists>b s. getDocument ws (textDocument_uri e) = Some b \<and> sessionMap this b = Some s \<and>
                  isActive cls (members s)
        then [Some c] else [])"
  by (auto simp: onDidChangeTextDocument_def getSession_def first_change_def
      split: option.splits)

text \<open>
  C10, as amended. \<^verbatim>\<open>handles\<close> answers true exactly when the provider is the TypeScript one
  and the path ends with the characters \<^verbatim>\<open>ts\<close> or \<^verbatim>\<open>tsx\<close> (nothing is asked of what precedes
  them), or it is the JavaScript one and the path ends with \<^verbatim>\<open>js\<close> or \<^verbatim>\<open>jsx\<close>, or
  \<^verbatim>\<open>bufferSyncSupport.handles\<close> holds, or the basename of the path is not empty and equals
  the configured \<^verbatim>\<open>configFile\<close>.
\<close>

theorem handles_iff:
  "handles this resource \<longleftrightarrow>
     (lang_id (description this) = ''typescript'' \<and>
        (suffix ''ts'' (fsPath resource) \<or> suffix ''tsx'' (fsPath resource))) \<or>
     (lang_id (description this) = ''javascript'' \<and>
        (suffix ''js'' (fsPath resource) \<or> suffix ''jsx'' (fsPath resource))) \<or>
     bufferSyncSupport_handles this resource \<or>
     (basename (fsPath resource) \<noteq> [] \<and>
        configFile (description this) = Some (basename (fsPath resource)))"
  unfolding handles_def Let_def regex_test_ts regex_test_js by auto

text \<open>
  The claim as it stands asks for true whenever the basename equals \<^verbatim>\<open>configFile\<close>. With an
  empty \<^verbatim>\<open>configFile\<close> and the path \<^verbatim>\<open>/\<close>, whose basename is empty, the two are equal, no
  suffix matches and \<^verbatim>\<open>bufferSyncSupport\<close> declines, yet \<^verbatim>\<open>handles\<close> answers false: the
  guard \<^verbatim>\<open>!!base\<close> refuses an empty basename.
\<close>

theorem handles_empty_basename_counterexample:
  "\<not> handles \<lparr>description = \<lparr>lang_id = ''typescript'', configFile = Some []\<rparr>,
              bufferSyncSupport_handles = (\<lambda>resource. False)\<rparr> \<lparr>fsPath = ''/''\<rparr> \<and>
   configFile \<lparr>lang_id = ''typescript'', configFile = Some []\<rparr> = Some (basename ''/'') \<and>
   \<not> suffix ''ts'' ''/'' \<and> \<not> suffix ''tsx'' ''/''"
  by (simp add: handles_def basename_def regex_test_ts suffix_def)

end
